theory Spec2Isabelle
  imports Main "HOL-Library.Word"
begin

unbundle bit_operations_syntax

section \<open>Data model\<close>

type_synonym u8 = "8 word"
type_synonym s8 = "8 word"    \<comment> \<open>read with \<open>sint\<close>: \<open>-1\<close> is \<open>0xff\<close>\<close>
type_synonym u32 = "32 word"
type_synonym s32 = "32 word"  \<comment> \<open>read with \<open>sint\<close>\<close>

text \<open>
  Modelled from the spec: the declaration of \<open>enum base64_variant\<close> lives in
  \<open>linux/base64.h\<close>; the tables below use its three enumerators as designators and the
  specification names them standard, URL-safe and IMAP-modified.
\<close>

datatype base64_variant = BASE64_STD | BASE64_URLSAFE | BASE64_IMAP

text \<open>The forward alphabets, \<open>base64_tables[][65]\<close> (the 65th byte is the terminating NUL).\<close>

fun base64_tables :: "base64_variant \<Rightarrow> string" where
  "base64_tables BASE64_STD =
     ''ABCDEFGHIJKLMNOPQRSTUVWXYZabcdefghijklmnopqrstuvwxyz0123456789+/''"
| "base64_tables BASE64_URLSAFE =
     ''ABCDEFGHIJKLMNOPQRSTUVWXYZabcdefghijklmnopqrstuvwxyz0123456789-_''"
| "base64_tables BASE64_IMAP =
     ''ABCDEFGHIJKLMNOPQRSTUVWXYZabcdefghijklmnopqrstuvwxyz0123456789+,''"

text \<open>
  A designated initialiser \<open>[i] = v0, v1, ...\<close> stores the values at consecutive indices
  from \<open>i\<close>; a later designator overrides an earlier one.
\<close>

fun designated :: "nat \<Rightarrow> 'a list \<Rightarrow> 'a list \<Rightarrow> 'a list" where
  "designated i [] tab = tab"
| "designated i (v # vs) tab = designated (Suc i) vs (tab[i := v])"

text \<open>The macro \<open>BASE64_REV_INIT(ch_62, ch_63)\<close>: 256 entries, all \<open>-1\<close> but the alphabet.\<close>

definition BASE64_REV_INIT :: "char \<Rightarrow> char \<Rightarrow> s8 list" where
  "BASE64_REV_INIT ch_62 ch_63 =
     designated (of_char ch_63) [63]
      (designated (of_char ch_62) [62]
        (designated (of_char CHR ''0'') [52, 53, 54, 55, 56, 57, 58, 59, 60, 61]
          (designated (of_char CHR ''a'')
             ([26, 27, 28, 29, 30, 31, 32, 33, 34, 35, 36, 37, 38] @
              [39, 40, 41, 42, 43, 44, 45, 46, 47, 48, 49, 50, 51])
            (designated (of_char CHR ''A'')
               ([0, 1, 2, 3, 4, 5, 6, 7, 8, 9, 10, 11, 12] @
                [13, 14, 15, 16, 17, 18, 19, 20, 21, 22, 23, 24, 25])
              (replicate 256 (- 1))))))"

fun base64_rev_maps :: "base64_variant \<Rightarrow> s8 list" where
  "base64_rev_maps BASE64_STD = BASE64_REV_INIT CHR ''+'' CHR ''/''"
| "base64_rev_maps BASE64_URLSAFE = BASE64_REV_INIT CHR ''-'' CHR ''_''"
| "base64_rev_maps BASE64_IMAP = BASE64_REV_INIT CHR ''+'' CHR '',''"

text \<open>Indexing a 256-entry table with a \<open>char\<close> cast to \<open>u8\<close>.\<close>

definition rev_lookup :: "s8 list \<Rightarrow> char \<Rightarrow> s8" where
  "rev_lookup base64_rev_tables c = base64_rev_tables ! of_char c"

section \<open>Encoding, fixed 3-byte grouping (part 000)\<close>

text \<open>
  \<open>base64_encode\<close> returns the \<open>int\<close> value of \<open>cp - dst\<close> and leaves the encoded
  characters in \<open>dst\<close>. The pointer difference is the number of characters written; the
  conversion to the 32-bit \<open>int\<close> keeps its low 32 bits, read as a signed number, so a
  count of \<open>2^31\<close> or more does not come back as written.
\<close>

definition c_int :: "nat \<Rightarrow> int" where
  "c_int n = sint (word_of_nat n :: s32)"

text \<open>
  The loops build the content of \<open>dst\<close>; \<open>srclen\<close> is the length of the list \<open>src\<close>,
  which a caller can pass only when it is at most \<open>INT_MAX\<close>. The accumulator \<open>ac\<close> is
  a 32-bit word, so its shifts drop the high bits as in C.
\<close>

fun encode_000_loop :: "string \<Rightarrow> u8 list \<Rightarrow> string \<Rightarrow> u8 list \<times> string" where
  "encode_000_loop base64_table (s0 # s1 # s2 # src) cp =
     (let ac = push_bit 16 (ucast s0) OR push_bit 8 (ucast s1) OR ucast s2 :: u32
      in encode_000_loop base64_table src
           (cp @ [base64_table ! unat (drop_bit 18 ac),
                  base64_table ! unat (drop_bit 12 ac AND 0x3f),
                  base64_table ! unat (drop_bit 6 ac AND 0x3f),
                  base64_table ! unat (ac AND 0x3f)]))"
| "encode_000_loop base64_table src cp = (src, cp)"

definition encode_000_tail :: "string \<Rightarrow> bool \<Rightarrow> u8 list \<Rightarrow> string \<Rightarrow> string" where
  "encode_000_tail base64_table padding src cp =
     (if length src = 2 then
        (let ac = push_bit 16 (ucast (src ! 0)) OR push_bit 8 (ucast (src ! 1)) :: u32;
             cp = cp @ [base64_table ! unat (drop_bit 18 ac),
                        base64_table ! unat (drop_bit 12 ac AND 0x3f),
                        base64_table ! unat (drop_bit 6 ac AND 0x3f)]
         in if padding then cp @ [CHR ''=''] else cp)
      else if length src = 1 then
        (let ac = push_bit 16 (ucast (src ! 0)) :: u32;
             cp = cp @ [base64_table ! unat (drop_bit 18 ac),
                        base64_table ! unat (drop_bit 12 ac AND 0x3f)]
         in if padding then cp @ [CHR ''='', CHR ''=''] else cp)
      else cp)"

definition encode_000_dst :: "u8 list \<Rightarrow> bool \<Rightarrow> base64_variant \<Rightarrow> string" where
  "encode_000_dst src padding variant =
     (let base64_table = base64_tables variant;
          (src', cp) = encode_000_loop base64_table src []
      in encode_000_tail base64_table padding src' cp)"

text \<open>The function: the returned \<open>int\<close> and the characters written to \<open>dst\<close>.\<close>

definition base64_encode_000 :: "u8 list \<Rightarrow> bool \<Rightarrow> base64_variant \<Rightarrow> int \<times> string" where
  "base64_encode_000 src padding variant =
     (let cp = encode_000_dst src padding variant in (c_int (length cp), cp))"

section \<open>Encoding, running bit accumulator (part 001)\<close>

text \<open>The inner \<open>do ... while (bits >= 6)\<close> loop.\<close>

function encode_001_emit :: "string \<Rightarrow> u32 \<Rightarrow> int \<Rightarrow> string \<Rightarrow> int \<times> string" where
  "encode_001_emit base64_table ac bits cp =
     (if bits - 6 \<ge> 6
      then encode_001_emit base64_table ac (bits - 6)
             (cp @ [base64_table ! unat (drop_bit (nat (bits - 6)) ac AND 0x3f)])
      else (bits - 6, cp @ [base64_table ! unat (drop_bit (nat (bits - 6)) ac AND 0x3f)]))"
  by pat_completeness auto
termination
  by (relation "measure (\<lambda>(base64_table, ac, bits, cp). nat bits)") auto

declare encode_001_emit.simps [simp del]

text \<open>The \<open>for\<close> loop over the source bytes; the state is \<open>(ac, bits, cp)\<close>.\<close>

fun encode_001_loop :: "string \<Rightarrow> u8 list \<Rightarrow> u32 \<times> int \<times> string \<Rightarrow> u32 \<times> int \<times> string" where
  "encode_001_loop base64_table [] (ac, bits, cp) = (ac, bits, cp)"
| "encode_001_loop base64_table (b # src) (ac, bits, cp) =
     (let ac = push_bit 8 ac OR ucast b;
          (bits, cp) = encode_001_emit base64_table ac (bits + 8) cp
      in encode_001_loop base64_table src (ac, bits, cp))"

text \<open>The padding loop \<open>while (bits < 0)\<close>.\<close>

function encode_001_pad :: "int \<Rightarrow> string \<Rightarrow> string" where
  "encode_001_pad bits cp =
     (if bits < 0 then encode_001_pad (bits + 2) (cp @ [CHR ''='']) else cp)"
  by pat_completeness auto
termination
  by (relation "measure (\<lambda>(bits, cp). nat (- bits))") auto

declare encode_001_pad.simps [simp del]

text \<open>The code after the \<open>for\<close> loop: the last partial symbol and the padding.\<close>

definition encode_001_tail :: "string \<Rightarrow> bool \<Rightarrow> u32 \<Rightarrow> int \<Rightarrow> string \<Rightarrow> string" where
  "encode_001_tail base64_table padding ac bits cp =
     (let (bits, cp) =
            (if bits \<noteq> 0
             then (bits - 6,
                   cp @ [base64_table ! unat (push_bit (nat (6 - bits)) ac AND 0x3f)])
             else (bits, cp))
      in if padding then encode_001_pad bits cp else cp)"

definition encode_001_dst :: "u8 list \<Rightarrow> bool \<Rightarrow> base64_variant \<Rightarrow> string" where
  "encode_001_dst src padding variant =
     (let base64_table = base64_tables variant;
          (ac, bits, cp) = encode_001_loop base64_table src (0, 0, [])
      in encode_001_tail base64_table padding ac bits cp)"

text \<open>The function: the returned \<open>int\<close> and the characters written to \<open>dst\<close>.\<close>

definition base64_encode_001 :: "u8 list \<Rightarrow> bool \<Rightarrow> base64_variant \<Rightarrow> int \<times> string" where
  "base64_encode_001 src padding variant =
     (let cp = encode_001_dst src padding variant in (c_int (length cp), cp))"

section \<open>Decoding, fixed 4-symbol grouping (part 000)\<close>

text \<open>
  The result \<open>None\<close> is the return value \<open>-1\<close>; \<open>Some bp\<close> is the content written to
  \<open>dst\<close>, whose length is the return value \<open>bp - dst\<close>.

  The \<open>while (srclen >= 4)\<close> loop either returns \<open>-1\<close>, or leaves through \<open>break\<close> with
  \<open>padding\<close> cleared and \<open>srclen\<close> set to 2 or 3, or runs until fewer than four symbols
  remain. It hands \<open>(padding, srclen, s, bp)\<close> to the code after the loop.
\<close>

fun decode_000_loop ::
  "s8 list \<Rightarrow> bool \<Rightarrow> string \<Rightarrow> u8 list \<Rightarrow> (bool \<times> nat \<times> string \<times> u8 list) option" where
  "decode_000_loop base64_rev_tables padding (s0 # s1 # s2 # s3 # s) bp =
     (let input0 = rev_lookup base64_rev_tables s0;
          input1 = rev_lookup base64_rev_tables s1;
          input2 = rev_lookup base64_rev_tables s2;
          input3 = rev_lookup base64_rev_tables s3;
          val = push_bit 18 (scast input0) OR push_bit 12 (scast input1) OR
                push_bit 6 (scast input2) OR scast input3 :: s32
      in if val <s 0 then
           (if \<not> padding \<or> s \<noteq> [] \<or> s3 \<noteq> CHR ''='' then None
            else Some (False, if s2 = CHR ''='' then 2 else 3, s0 # s1 # s2 # s3 # s, bp))
         else decode_000_loop base64_rev_tables padding s
                (bp @ [ucast (signed_drop_bit 16 val), ucast (signed_drop_bit 8 val),
                       ucast val]))"
| "decode_000_loop base64_rev_tables padding s bp = Some (padding, length s, s, bp)"

definition decode_000_tail ::
  "s8 list \<Rightarrow> bool \<Rightarrow> nat \<Rightarrow> string \<Rightarrow> u8 list \<Rightarrow> u8 list option" where
  "decode_000_tail base64_rev_tables padding srclen s bp =
     (if srclen = 0 then Some bp
      else if padding \<or> srclen = 1 then None
      else
        (let val = push_bit 12 (scast (rev_lookup base64_rev_tables (s ! 0))) OR
                   push_bit 6 (scast (rev_lookup base64_rev_tables (s ! 1))) :: s32;
             bp = bp @ [ucast (signed_drop_bit 10 val)]
         in if srclen = 2 then
              (if val AND 0x800003ff \<noteq> 0 then None else Some bp)
            else
              (let val = val OR scast (rev_lookup base64_rev_tables (s ! 2))
               in if val AND 0x80000003 \<noteq> 0 then None
                  else Some (bp @ [ucast (signed_drop_bit 2 val)]))))"

text \<open>The whole function body, started with the output written so far.\<close>

definition decode_000_from ::
  "s8 list \<Rightarrow> bool \<Rightarrow> string \<Rightarrow> u8 list \<Rightarrow> u8 list option" where
  "decode_000_from base64_rev_tables padding src bp =
     (case decode_000_loop base64_rev_tables padding src bp of
        None \<Rightarrow> None
      | Some (padding', srclen, s, bp') \<Rightarrow>
          decode_000_tail base64_rev_tables padding' srclen s bp')"

definition base64_decode_000 :: "string \<Rightarrow> bool \<Rightarrow> base64_variant \<Rightarrow> u8 list option" where
  "base64_decode_000 src padding variant =
     decode_000_from (base64_rev_maps variant) padding src []"

text \<open>
  The call with an explicit \<open>int srclen\<close> on a buffer \<open>src\<close>. For \<open>srclen\<close> from 0 to the
  size of the buffer the function reads the first \<open>srclen\<close> characters. For a negative
  \<open>srclen\<close> the loop is skipped, \<open>srclen\<close> is neither 0 nor 1 nor 2, and the code after the
  loop runs as it does for three leftover symbols.
\<close>

definition base64_decode_000_len ::
  "string \<Rightarrow> int \<Rightarrow> bool \<Rightarrow> base64_variant \<Rightarrow> u8 list option" where
  "base64_decode_000_len src srclen padding variant =
     (if srclen < 0 then decode_000_tail (base64_rev_maps variant) padding 3 src []
      else base64_decode_000 (take (nat srclen) src) padding variant)"

section \<open>Decoding, running bit accumulator (part 001)\<close>

text \<open>The \<open>for\<close> loop over the source characters; the state is \<open>(ac, bits, bp)\<close>.\<close>

fun decode_001_loop ::
  "s8 list \<Rightarrow> bool \<Rightarrow> string \<Rightarrow> u32 \<times> int \<times> u8 list \<Rightarrow> (u32 \<times> int \<times> u8 list) option" where
  "decode_001_loop base64_rev_tables padding [] (ac, bits, bp) = Some (ac, bits, bp)"
| "decode_001_loop base64_rev_tables padding (c # src) (ac, bits, bp) =
     (if padding \<and> c = CHR ''='' then
        decode_001_loop base64_rev_tables padding src
          (push_bit 6 ac, if bits + 6 \<ge> 8 then bits + 6 - 8 else bits + 6, bp)
      else
        (let ch = rev_lookup base64_rev_tables c
         in if ch = - 1 then None
            else
              (let ac = push_bit 6 ac OR scast ch;
                   bits = bits + 6
               in if bits \<ge> 8
                  then decode_001_loop base64_rev_tables padding src
                         (ac, bits - 8, bp @ [ucast (drop_bit (nat (bits - 8)) ac)])
                  else decode_001_loop base64_rev_tables padding src (ac, bits, bp))))"

text \<open>The check of the leftover bits after the loop.\<close>

definition decode_001_final :: "(u32 \<times> int \<times> u8 list) option \<Rightarrow> u8 list option" where
  "decode_001_final r =
     (case r of
        None \<Rightarrow> None
      | Some (ac, bits, bp) \<Rightarrow>
          if ac AND (push_bit (nat bits) 1 - 1) \<noteq> 0 then None else Some bp)"

definition base64_decode_001 :: "string \<Rightarrow> bool \<Rightarrow> base64_variant \<Rightarrow> u8 list option" where
  "base64_decode_001 src padding variant =
     decode_001_final (decode_001_loop (base64_rev_maps variant) padding src (0, 0, []))"

text \<open>
  The call with an explicit \<open>int srclen\<close>: the \<open>for\<close> loop runs over the first \<open>srclen\<close>
  characters, and over none when \<open>srclen\<close> is negative.
\<close>

definition base64_decode_001_len ::
  "string \<Rightarrow> int \<Rightarrow> bool \<Rightarrow> base64_variant \<Rightarrow> u8 list option" where
  "base64_decode_001_len src srclen padding variant =
     base64_decode_001 (take (nat srclen) src) padding variant"

section \<open>Auxiliary definitions for the statements\<close>

text \<open>The two arguments of \<open>BASE64_REV_INIT\<close> for each variant, as written at its three uses.\<close>

fun ch_62 :: "base64_variant \<Rightarrow> char" where
  "ch_62 BASE64_STD = CHR ''+''"
| "ch_62 BASE64_URLSAFE = CHR ''-''"
| "ch_62 BASE64_IMAP = CHR ''+''"

fun ch_63 :: "base64_variant \<Rightarrow> char" where
  "ch_63 BASE64_STD = CHR ''/''"
| "ch_63 BASE64_URLSAFE = CHR ''_''"
| "ch_63 BASE64_IMAP = CHR '',''"

text \<open>The value \<open>val\<close> that the grouped decoder builds from four table entries.\<close>

definition group_val :: "s8 \<Rightarrow> s8 \<Rightarrow> s8 \<Rightarrow> s8 \<Rightarrow> s32" where
  "group_val a b c d =
     push_bit 18 (scast a) OR push_bit 12 (scast b) OR push_bit 6 (scast c) OR scast d"

text \<open>
  Three bytes joined into 24 bits, the 6-bit field of a word that starts at bit \<open>k\<close>, and
  the alphabet symbol of a 6-bit value: the vocabulary for tracing what the encoders write.
\<close>

definition bytes3 :: "u8 \<Rightarrow> u8 \<Rightarrow> u8 \<Rightarrow> u32" where
  "bytes3 s0 s1 s2 = push_bit 16 (ucast s0) OR push_bit 8 (ucast s1) OR ucast s2"

definition sextet :: "nat \<Rightarrow> u32 \<Rightarrow> u32" where
  "sextet k g = take_bit 6 (drop_bit k g)"

definition symbol :: "base64_variant \<Rightarrow> u32 \<Rightarrow> char" where
  "symbol variant i = base64_tables variant ! unat i"

text \<open>
  The round trip of a caller: the decoder is given the buffer that the encoder filled and
  the \<open>int\<close> that the encoder returned.
\<close>

definition roundtrip_000 :: "u8 list \<Rightarrow> bool \<Rightarrow> base64_variant \<Rightarrow> u8 list option" where
  "roundtrip_000 src padding variant =
     (case base64_encode_000 src padding variant of
        (n, dst) \<Rightarrow> base64_decode_000_len dst n padding variant)"

definition roundtrip_001 :: "u8 list \<Rightarrow> bool \<Rightarrow> base64_variant \<Rightarrow> u8 list option" where
  "roundtrip_001 src padding variant =
     (case base64_encode_001 src padding variant of
        (n, dst) \<Rightarrow> base64_decode_001_len dst n padding variant)"

section \<open>The constant tables\<close>

lemma length_designated [simp]: "length (designated i vs tab) = length tab"
  by (induction i vs tab rule: designated.induct) simp_all

lemma nth_designated:
  "i + length vs \<le> length tab \<Longrightarrow>
   designated i vs tab ! n = (if i \<le> n \<and> n < i + length vs then vs ! (n - i) else tab ! n)"
proof (induction i vs tab rule: designated.induct)
  case (1 i tab)
  then show ?case by auto
next
  case (2 i v vs tab)
  then show ?case
    by (auto simp: nth_list_update Suc_diff_le nth_Cons')
qed

lemma rev_lookup_INIT:
  "rev_lookup (BASE64_REV_INIT c62 c63) c =
     (let n = of_char c :: nat in
      if c = c63 then 63 else if c = c62 then 62
      else if 48 \<le> n \<and> n < 58 then [52, 53, 54, 55, 56, 57, 58, 59, 60, 61] ! (n - 48)
      else if 97 \<le> n \<and> n < 123 then
             ([26, 27, 28, 29, 30, 31, 32, 33, 34, 35, 36, 37, 38] @
              [39, 40, 41, 42, 43, 44, 45, 46, 47, 48, 49, 50, 51]) ! (n - 97)
      else if 65 \<le> n \<and> n < 91 then
             ([0, 1, 2, 3, 4, 5, 6, 7, 8, 9, 10, 11, 12] @
              [13, 14, 15, 16, 17, 18, 19, 20, 21, 22, 23, 24, 25]) ! (n - 65)
      else - 1)"
proof -
  have one: "designated (of_char ch) [v] tab ! n = (if n = of_char ch then v else tab ! n)"
    if "length tab = 256" for ch :: char and v :: s8 and tab n
    using that nth_designated [of "of_char ch" "[v]" tab n] by (auto simp: Suc_le_eq)
  have e: "(of_char c = (of_char ch :: nat)) = (c = ch)" for ch :: char
    by auto
  show ?thesis
    unfolding rev_lookup_def BASE64_REV_INIT_def Let_def
    by (simp add: one nth_designated e del: designated.simps)
qed

lemma rev_maps_INIT: "base64_rev_maps v = BASE64_REV_INIT (ch_62 v) (ch_63 v)"
  by (cases v) simp_all

lemma length_rev_maps: "length (base64_rev_maps v) = 256"
  by (simp add: rev_maps_INIT BASE64_REV_INIT_def del: designated.simps)

lemma tables_length: "length (base64_tables v) = 64"
  by (cases v) simp_all

lemma tables_distinct: "distinct (base64_tables v)"
  by (cases v) simp_all

lemma pad_not_in_tables: "CHR ''='' \<notin> set (base64_tables v)"
  by (cases v) simp_all

lemma tables_common: "take 62 (base64_tables v) = take 62 (base64_tables BASE64_STD)"
  by (cases v) simp_all

lemma tables_62_63: "base64_tables v ! 62 = ch_62 v \<and> base64_tables v ! 63 = ch_63 v"
  by (cases v) simp_all

lemma word_upt_64:
  "map of_nat [0..<64] =
     [0, 1, 2, 3, 4, 5, 6, 7, 8, 9, 10, 11, 12] @
     [13, 14, 15, 16, 17, 18, 19, 20, 21, 22, 23, 24, 25] @
     [26, 27, 28, 29, 30, 31, 32, 33, 34, 35, 36, 37, 38] @
     [39, 40, 41, 42, 43, 44, 45, 46, 47, 48, 49, 50, 51] @
     [52, 53, 54, 55, 56, 57, 58, 59, 60, 61, 62, 63 :: s8]"
  by code_simp

lemma rev_tables_map:
  "map (rev_lookup (base64_rev_maps v)) (base64_tables v) = map of_nat [0..<64]"
  unfolding word_upt_64 by (cases v) (simp_all add: rev_lookup_INIT)

lemma rev_of_table:
  assumes "i < 64"
  shows "rev_lookup (base64_rev_maps v) (base64_tables v ! i) = of_nat i"
proof -
  have "rev_lookup (base64_rev_maps v) (base64_tables v ! i) =
        map (rev_lookup (base64_rev_maps v)) (base64_tables v) ! i"
    using assms by (simp add: tables_length)
  also have "\<dots> = of_nat i"
    unfolding rev_tables_map using assms by simp
  finally show ?thesis .
qed

lemma tables_ranges:
  "map of_char (base64_tables v) =
     [65..<91] @ [97..<123] @ [48..<58] @ [of_char (ch_62 v), of_char (ch_63 v) :: nat]"
  by (cases v) (simp_all add: upt_rec_numeral)

lemma in_tables_iff:
  "c \<in> set (base64_tables v) \<longleftrightarrow>
     c = ch_63 v \<or> c = ch_62 v \<or> (of_char c :: nat) \<in> {48..<58} \<or>
     (of_char c :: nat) \<in> {97..<123} \<or> (of_char c :: nat) \<in> {65..<91}"
proof -
  have "c \<in> set (base64_tables v) \<longleftrightarrow>
        (of_char c :: nat) \<in> set (map of_char (base64_tables v))"
    by (auto simp: image_iff)
  also have "\<dots> \<longleftrightarrow> c = ch_63 v \<or> c = ch_62 v \<or> (of_char c :: nat) \<in> {48..<58} \<or>
     (of_char c :: nat) \<in> {97..<123} \<or> (of_char c :: nat) \<in> {65..<91}"
    unfolding tables_ranges by (auto simp del: upt_rec_numeral)
  finally show ?thesis .
qed

lemma rev_not_in_table:
  assumes "c \<notin> set (base64_tables v)"
  shows "rev_lookup (base64_rev_maps v) c = - 1"
  using assms unfolding in_tables_iff rev_maps_INIT rev_lookup_INIT by (auto simp: Let_def)

text \<open>
  Claim C9. For each of the three variants the forward alphabet has 64 distinct symbols;
  the alphabets agree on the indices below 62 and carry \<open>+ /\<close> (standard), \<open>- _\<close>
  (URL-safe) and \<open>+ ,\<close> (IMAP) at the indices 62 and 63; the reverse table has 256
  entries, sends the symbol at index \<open>i\<close> back to \<open>i\<close> for every \<open>i\<close> below 64, and
  holds the sentinel \<open>-1\<close> at every byte value outside the alphabet.
\<close>

theorem base64_tables_invariant:
  "length (base64_tables v) = 64 \<and> distinct (base64_tables v) \<and>
   take 62 (base64_tables v) = take 62 (base64_tables v') \<and>
   [base64_tables v ! 62, base64_tables v ! 63] =
     (case v of BASE64_STD \<Rightarrow> ''+/'' | BASE64_URLSAFE \<Rightarrow> ''-_'' | BASE64_IMAP \<Rightarrow> ''+,'') \<and>
   length (base64_rev_maps v) = 256 \<and>
   (\<forall>i<64. rev_lookup (base64_rev_maps v) (base64_tables v ! i) = of_nat i) \<and>
   (\<forall>c. c \<notin> set (base64_tables v) \<longrightarrow> rev_lookup (base64_rev_maps v) c = - 1)"
proof -
  have "take 62 (base64_tables v) = take 62 (base64_tables v')"
    using tables_common [of v] tables_common [of v'] by simp
  moreover have "[base64_tables v ! 62, base64_tables v ! 63] =
     (case v of BASE64_STD \<Rightarrow> ''+/'' | BASE64_URLSAFE \<Rightarrow> ''-_'' | BASE64_IMAP \<Rightarrow> ''+,'')"
    by (cases v) simp_all
  ultimately show ?thesis
    by (simp add: tables_length tables_distinct length_rev_maps rev_of_table rev_not_in_table)
qed

theorem base64_tables_invariant_witness:
  "rev_lookup (base64_rev_maps BASE64_URLSAFE) (base64_tables BASE64_URLSAFE ! 63) = 63 \<and>
   base64_tables BASE64_URLSAFE ! 63 = CHR ''_'' \<and>
   CHR ''+'' \<notin> set (base64_tables BASE64_URLSAFE) \<and>
   rev_lookup (base64_rev_maps BASE64_URLSAFE) CHR ''+'' = - 1"
proof -
  note t = base64_tables_invariant [of BASE64_URLSAFE BASE64_STD]
  have a: "CHR ''+'' \<notin> set (base64_tables BASE64_URLSAFE)" by simp
  have "(63::nat) < 64" by simp
  with t have "rev_lookup (base64_rev_maps BASE64_URLSAFE) (base64_tables BASE64_URLSAFE ! 63)
                = of_nat 63" by blast
  moreover from t a have "rev_lookup (base64_rev_maps BASE64_URLSAFE) CHR ''+'' = - 1" by blast
  ultimately show ?thesis using a by simp
qed

section \<open>The two encoders\<close>

lemma and_3f: "x AND 0x3f = take_bit 6 x" for x :: "'a::len word"
  by (simp add: take_bit_eq_mask mask_eq_exp_minus_1)

lemma encode_001_group:
  fixes s0 s1 s2 :: u8 and ac :: u32
  defines "g \<equiv> push_bit 16 (ucast s0) OR push_bit 8 (ucast s1) OR ucast s2 :: u32"
  shows "encode_001_loop tab (s0 # s1 # s2 # src) (ac, 0, cp) =
         encode_001_loop tab src
           (push_bit 8 (push_bit 8 (push_bit 8 ac OR ucast s0) OR ucast s1) OR ucast s2, 0,
            cp @ [tab ! unat (drop_bit 18 g), tab ! unat (drop_bit 12 g AND 0x3f),
                  tab ! unat (drop_bit 6 g AND 0x3f), tab ! unat (g AND 0x3f)])"
proof -
  have b1: "drop_bit 2 (push_bit 8 ac OR ucast s0) AND 0x3f = drop_bit 18 g"
    unfolding and_3f g_def
    by (rule bit_word_eqI) (auto simp: bit_simps dest: bit_imp_le_length)
  have b2: "drop_bit 4 (push_bit 8 (push_bit 8 ac OR ucast s0) OR ucast s1) AND 0x3f =
            drop_bit 12 g AND 0x3f"
    unfolding and_3f g_def
    by (rule bit_word_eqI) (auto simp: bit_simps dest: bit_imp_le_length)
  have b3: "drop_bit 6 (push_bit 8 (push_bit 8 (push_bit 8 ac OR ucast s0) OR ucast s1) OR ucast s2) AND 0x3f =
            drop_bit 6 g AND 0x3f"
    unfolding and_3f g_def
    by (rule bit_word_eqI) (auto simp: bit_simps dest: bit_imp_le_length)
  have b4: "(push_bit 8 (push_bit 8 (push_bit 8 ac OR ucast s0) OR ucast s1) OR ucast s2) AND 0x3f =
            g AND 0x3f"
    unfolding and_3f g_def
    by (rule bit_word_eqI) (auto simp: bit_simps dest: bit_imp_le_length)
  show ?thesis
    using b1 b2 b3 b4 by (simp add: encode_001_emit.simps Let_def)
qed


lemma encode_001_tail_two:
  fixes s0 s1 :: u8 and ac :: u32
  shows "(case encode_001_loop tab [s0, s1] (ac, 0, cp) of
            (ac', bits, cp') \<Rightarrow> encode_001_tail tab padding ac' bits cp') =
         encode_000_tail tab padding [s0, s1] cp"
proof -
  define g :: u32 where "g = push_bit 16 (ucast s0) OR push_bit 8 (ucast s1)"
  have b1: "drop_bit 2 (push_bit 8 ac OR ucast s0) AND 0x3f = drop_bit 18 g"
    unfolding and_3f g_def
    by (rule bit_word_eqI) (auto simp: bit_simps dest: bit_imp_le_length)
  have b2: "drop_bit 4 (push_bit 8 (push_bit 8 ac OR ucast s0) OR ucast s1) AND 0x3f =
            drop_bit 12 g AND 0x3f"
    unfolding and_3f g_def
    by (rule bit_word_eqI) (auto simp: bit_simps dest: bit_imp_le_length)
  have b3: "push_bit 2 (push_bit 8 (push_bit 8 ac OR ucast s0) OR ucast s1) AND 0x3f =
            drop_bit 6 g AND 0x3f"
    unfolding and_3f g_def
    by (rule bit_word_eqI) (auto simp: bit_simps dest: bit_imp_le_length)
  show ?thesis
    using b1 b2 b3
    by (simp add: encode_001_emit.simps encode_001_pad.simps encode_001_tail_def
          encode_000_tail_def Let_def g_def [symmetric])
qed

lemma encode_001_tail_one:
  fixes s0 :: u8 and ac :: u32
  shows "(case encode_001_loop tab [s0] (ac, 0, cp) of
            (ac', bits, cp') \<Rightarrow> encode_001_tail tab padding ac' bits cp') =
         encode_000_tail tab padding [s0] cp"
proof -
  define g :: u32 where "g = push_bit 16 (ucast s0)"
  have b1: "drop_bit 2 (push_bit 8 ac OR ucast s0) AND 0x3f = drop_bit 18 g"
    unfolding and_3f g_def
    by (rule bit_word_eqI) (auto simp: bit_simps dest: bit_imp_le_length)
  have b2: "push_bit 4 (push_bit 8 ac OR ucast s0) AND 0x3f = drop_bit 12 g AND 0x3f"
    unfolding and_3f g_def
    by (rule bit_word_eqI) (auto simp: bit_simps dest: bit_imp_le_length)
  show ?thesis
    using b1 b2
    by (simp add: encode_001_emit.simps encode_001_pad.simps encode_001_tail_def
          encode_000_tail_def Let_def g_def [symmetric])
qed

lemma encode_001_as_000_short:
  assumes "length src < 3"
  shows "(case encode_001_loop tab src (ac, 0, cp) of
            (ac', bits, cp') \<Rightarrow> encode_001_tail tab padding ac' bits cp') =
         (case encode_000_loop tab src cp of
            (src', cp') \<Rightarrow> encode_000_tail tab padding src' cp')"
proof -
  from assms consider "src = []" | a where "src = [a]" | a b where "src = [a, b]"
    by (auto simp: less_Suc_eq numeral_3_eq_3 length_Suc_conv)
  then show ?thesis
  proof cases
    case 1
    then show ?thesis
      by (simp add: encode_001_tail_def encode_000_tail_def encode_001_pad.simps)
  next
    case 2
    then show ?thesis
      using encode_001_tail_one [where tab = tab and ?s0.0 = a and ac = ac and cp = cp]
      by simp
  next
    case 3
    then show ?thesis
      using encode_001_tail_two [where tab = tab and ?s0.0 = a and ?s1.0 = b and ac = ac
          and cp = cp]
      by simp
  qed
qed

lemma encode_001_as_000:
  "(case encode_001_loop tab src (ac, 0, cp) of
      (ac', bits, cp') \<Rightarrow> encode_001_tail tab padding ac' bits cp') =
   (case encode_000_loop tab src cp of (src', cp') \<Rightarrow> encode_000_tail tab padding src' cp')"
proof (induction tab src cp arbitrary: ac rule: encode_000_loop.induct)
  case (1 tab s0 s1 s2 src cp)
  show ?case
    unfolding encode_001_group using "1.IH" by (simp add: Let_def)
qed (rule encode_001_as_000_short, simp)+

lemma encode_001_dst_eq_000: "encode_001_dst src padding variant = encode_000_dst src padding variant"
  unfolding encode_001_dst_def encode_000_dst_def Let_def
  using encode_001_as_000 [where tab = "base64_tables variant" and src = src and ac = 0
      and cp = "[]" and padding = padding]
  by (simp split: prod.splits)


text \<open>
  Claim C8. The encoder with fixed 3-byte grouping (part 000) and the encoder with the
  running bit accumulator (part 001) write the same character sequence for every byte
  sequence, padding flag and variant, and return the same \<open>int\<close>.
\<close>

theorem base64_encode_equivalent:
  "base64_encode_001 src padding variant = base64_encode_000 src padding variant \<and>
   snd (base64_encode_001 src padding variant) = snd (base64_encode_000 src padding variant) \<and>
   fst (base64_encode_001 src padding variant) = fst (base64_encode_000 src padding variant)"
  by (simp add: base64_encode_001_def base64_encode_000_def encode_001_dst_eq_000)

lemma encode_000_loop_length:
  "length (fst (encode_000_loop tab src cp)) = length src mod 3 \<and>
   length (snd (encode_000_loop tab src cp)) = length cp + 4 * (length src div 3)"
proof (induction tab src cp rule: encode_000_loop.induct)
  case (1 tab s0 s1 s2 src cp)
  have "Suc (Suc (Suc (length src))) mod 3 = length src mod 3"
       "Suc (Suc (Suc (length src))) div 3 = Suc (length src div 3)"
    by presburger+
  with 1 show ?case by (simp add: Let_def)
qed simp_all

lemma encode_000_tail_length:
  assumes "length src < 3"
  shows "length (encode_000_tail tab padding src cp) =
     length cp + (if length src = 0 then 0 else if padding then 4 else length src + 1)"
proof -
  from assms consider "length src = 0" | "length src = 1" | "length src = 2" by linarith
  then show ?thesis
    by cases (simp_all add: encode_000_tail_def Let_def)
qed

lemma enc_len_arith:
  "4 * (n div 3) + (if n mod 3 = 0 then 0 else if padding then 4 else n mod 3 + 1) =
   (if padding then 4 * ((n + 2) div 3) else (n * 8 + 5) div 6)" for n :: nat
proof -
  define q r where "q = n div 3" and "r = n mod 3"
  then have n: "n = 3 * q + r" and "r < 3" by simp_all
  have d: "n div 3 = q" "n mod 3 = r" by (simp_all add: q_def r_def)
  from \<open>r < 3\<close> consider "r = 0" | "r = 1" | "r = 2" by linarith
  then show ?thesis
  proof cases
    case 1
    have "(3 * q + 2) div 3 = q" "(24 * q + 5) div 6 = 4 * q" by linarith+
    with 1 show ?thesis unfolding d by (simp add: n ac_simps)
  next
    case 2
    have "(3 * q + 1 + 2) div 3 = q + 1" "(24 * q + 13) div 6 = 4 * q + 2" by linarith+
    with 2 show ?thesis unfolding d by (simp add: n ac_simps)
  next
    case 3
    have "(3 * q + 2 + 2) div 3 = q + 1" "(24 * q + 21) div 6 = 4 * q + 3" by linarith+
    with 3 show ?thesis unfolding d by (simp add: n ac_simps)
  qed
qed
lemma encode_000_dst_length:
  "length (encode_000_dst src padding variant) =
     (if padding then 4 * ((length src + 2) div 3) else (length src * 8 + 5) div 6)"
proof -
  obtain src' cp where e: "encode_000_loop (base64_tables variant) src [] = (src', cp)"
    by (cases "encode_000_loop (base64_tables variant) src []")
  from encode_000_loop_length [of "base64_tables variant" src "[]"] e
  have l: "length src' = length src mod 3" "length cp = 4 * (length src div 3)"
    by simp_all
  then have "length src' < 3" by simp
  from encode_000_tail_length [OF this, of "base64_tables variant" padding cp] l
  have "length (encode_000_dst src padding variant) =
          4 * (length src div 3) +
          (if length src mod 3 = 0 then 0 else if padding then 4 else length src mod 3 + 1)"
    by (simp add: encode_000_dst_def e)
  then show ?thesis
    by (simp only: enc_len_arith)
qed

lemma c_int_fits:
  assumes "n < 2 ^ 31"
  shows "c_int n = int n"
proof -
  from assms have t: "take_bit 32 n = n"
    by (simp add: take_bit_nat_eq_self)
  have "sint (word_of_nat n :: s32) = signed_take_bit 31 (int (take_bit 32 n))"
    by (simp add: sint_uint unsigned_of_nat take_bit_of_nat signed_take_bit_take_bit)
  also have "\<dots> = int n"
    unfolding t using assms by (intro signed_take_bit_int_eq_self) simp_all
  finally show ?thesis by (simp add: c_int_def)
qed

lemma base64_encode_fst:
  "fst (base64_encode_000 src padding variant) =
     c_int (if padding then 4 * ((length src + 2) div 3) else (length src * 8 + 5) div 6)"
  "fst (base64_encode_001 src padding variant) =
     c_int (if padding then 4 * ((length src + 2) div 3) else (length src * 8 + 5) div 6)"
  by (simp_all add: base64_encode_000_def base64_encode_001_def encode_001_dst_eq_000
      encode_000_dst_length Let_def)

lemma base64_encode_snd:
  "snd (base64_encode_000 src padding variant) = encode_000_dst src padding variant"
  "snd (base64_encode_001 src padding variant) = encode_000_dst src padding variant"
  by (simp_all add: base64_encode_000_def base64_encode_001_def encode_001_dst_eq_000 Let_def)

text \<open>
  Claim C7, as the code has it. For every byte sequence whose encoding has fewer than
  \<open>2^31\<close> characters, both encoders return the \<open>int\<close> \<open>4 * ceil(n / 3)\<close> with padding
  and \<open>ceil(8 * n / 6)\<close> without, where \<open>n\<close> is the length of the input; the ceilings are
  written with \<open>div\<close>. The encoders are total, so there is no failure result, and the
  empty input gives the result 0 and no output.
\<close>

theorem base64_encode_length:
  "(4 * ((length src + 2) div 3) < 2 ^ 31 \<longrightarrow>
      fst (base64_encode_000 src True variant) = int (4 * ((length src + 2) div 3)) \<and>
      fst (base64_encode_001 src True variant) = int (4 * ((length src + 2) div 3))) \<and>
   ((length src * 8 + 5) div 6 < 2 ^ 31 \<longrightarrow>
      fst (base64_encode_000 src False variant) = int ((length src * 8 + 5) div 6) \<and>
      fst (base64_encode_001 src False variant) = int ((length src * 8 + 5) div 6)) \<and>
   length (snd (base64_encode_000 src True variant)) = 4 * ((length src + 2) div 3) \<and>
   length (snd (base64_encode_001 src True variant)) = 4 * ((length src + 2) div 3) \<and>
   length (snd (base64_encode_000 src False variant)) = (length src * 8 + 5) div 6 \<and>
   length (snd (base64_encode_001 src False variant)) = (length src * 8 + 5) div 6 \<and>
   base64_encode_000 [] padding variant = (0, []) \<and>
   base64_encode_001 [] padding variant = (0, [])"
proof -
  have e: "encode_000_dst [] padding variant = []"
    by (simp add: encode_000_dst_def encode_000_tail_def)
  have "base64_encode_000 [] padding variant = (0, [])"
       "base64_encode_001 [] padding variant = (0, [])"
    by (simp_all add: base64_encode_000_def base64_encode_001_def encode_001_dst_eq_000 e
        c_int_def)
  moreover have "fst (base64_encode_000 src True variant) = int (4 * ((length src + 2) div 3))"
    "fst (base64_encode_001 src True variant) = int (4 * ((length src + 2) div 3))"
    if "4 * ((length src + 2) div 3) < 2 ^ 31"
    using c_int_fits [OF that] by (simp_all only: base64_encode_fst if_True)
  moreover have "fst (base64_encode_000 src False variant) = int ((length src * 8 + 5) div 6)"
    "fst (base64_encode_001 src False variant) = int ((length src * 8 + 5) div 6)"
    if "(length src * 8 + 5) div 6 < 2 ^ 31"
    using c_int_fits [OF that] by (simp_all only: base64_encode_fst if_False)
  moreover have "length (snd (base64_encode_000 src True variant)) = 4 * ((length src + 2) div 3)"
    "length (snd (base64_encode_001 src True variant)) = 4 * ((length src + 2) div 3)"
    "length (snd (base64_encode_000 src False variant)) = (length src * 8 + 5) div 6"
    "length (snd (base64_encode_001 src False variant)) = (length src * 8 + 5) div 6"
    by (simp_all add: base64_encode_snd encode_000_dst_length)
  ultimately show ?thesis by blast
qed

theorem base64_encode_length_witness:
  "4 * ((length [0x66, 0x6f :: u8] + 2) div 3) < (2 ^ 31 :: nat) \<and>
   (length [0x66, 0x6f :: u8] * 8 + 5) div 6 < (2 ^ 31 :: nat) \<and>
   fst (base64_encode_000 [0x66, 0x6f] True BASE64_STD) = 4 \<and>
   fst (base64_encode_001 [0x66, 0x6f] True BASE64_STD) = 4 \<and>
   fst (base64_encode_000 [0x66, 0x6f] False BASE64_STD) = 3 \<and>
   fst (base64_encode_001 [0x66, 0x6f] False BASE64_STD) = 3"
  using base64_encode_length [of "[0x66, 0x6f]" BASE64_STD True]
  by simp

text \<open>
  Claim C7 as stated fails where the count does not fit the \<open>int\<close>: for 1610612734
  bytes (an \<open>srclen\<close> below \<open>INT_MAX\<close>) the padded encoding has \<open>2^31\<close> characters and
  the encoder returns \<open>-2^31\<close>.
\<close>

theorem base64_encode_length_counterexample:
  "fst (base64_encode_000 (replicate 1610612734 0) True BASE64_STD) = - 2147483648 \<and>
   4 * ((length (replicate 1610612734 (0 :: u8)) + 2) div 3) = (2147483648 :: nat)"
  by (simp add: base64_encode_000_def encode_000_dst_length c_int_def)

section \<open>The decoders: characters outside the alphabet\<close>

lemma sless0_iff: "x <s 0 \<longleftrightarrow> bit x 31" for x :: s32
  using bit_last_iff [of x] by (simp add: word_sless_alt)

lemma bit31_masks: "bit (0x800003ff :: s32) 31" "bit (0x80000003 :: s32) 31"
  by (simp_all add: bit_numeral_word_iff) 

lemma group_val_neg:
  assumes "a = - 1 \<or> b = - 1 \<or> c = - 1 \<or> d = - 1"
  shows "group_val a b c d <s 0"
  using assms unfolding sless0_iff group_val_def by (auto simp: bit_simps)

lemma and_mask_neq0:
  fixes x m :: s32
  assumes "bit x 31" "bit m 31"
  shows "x AND m \<noteq> 0"
proof
  assume "x AND m = 0"
  then have "\<not> bit (x AND m) 31" by simp
  with assms show False by (simp add: bit_simps)
qed

lemma tail2_neg:
  fixes a b :: s8
  assumes "a = - 1 \<or> b = - 1"
  shows "(push_bit 12 (scast a) OR push_bit 6 (scast b) :: s32) AND 0x800003ff \<noteq> 0"
  by (rule and_mask_neq0) (use assms in \<open>auto simp: bit_simps bit31_masks\<close>)

lemma tail3_neg:
  fixes a b c :: s8
  assumes "a = - 1 \<or> b = - 1 \<or> c = - 1"
  shows "((push_bit 12 (scast a) OR push_bit 6 (scast b)) OR scast c :: s32) AND 0x80000003 \<noteq> 0"
  by (rule and_mask_neq0) (use assms in \<open>auto simp: bit_simps bit31_masks\<close>)

lemma decode_000_from_group:
  "decode_000_from rt padding (s0 # s1 # s2 # s3 # s) bp =
     (let val = group_val (rev_lookup rt s0) (rev_lookup rt s1) (rev_lookup rt s2)
                  (rev_lookup rt s3)
      in if val <s 0 then
           (if \<not> padding \<or> s \<noteq> [] \<or> s3 \<noteq> CHR ''='' then None
            else decode_000_tail rt False (if s2 = CHR ''='' then 2 else 3)
                   [s0, s1, s2, s3] bp)
         else decode_000_from rt padding s
                (bp @ [ucast (signed_drop_bit 16 val), ucast (signed_drop_bit 8 val),
                       ucast val]))"
  by (simp add: decode_000_from_def group_val_def Let_def)

lemma decode_000_loop_short:
  assumes "length s < 4"
  shows "decode_000_loop rt padding s bp = Some (padding, length s, s, bp)"
proof -
  from assms consider "s = []" | a where "s = [a]" | a b where "s = [a, b]"
    | a b c where "s = [a, b, c]"
    by (auto simp: less_Suc_eq numeral_eq_Suc length_Suc_conv)
  then show ?thesis by cases simp_all
qed

lemma decode_000_from_short:
  "length s < 4 \<Longrightarrow>
   decode_000_from rt padding s bp = decode_000_tail rt padding (length s) s bp"
  by (simp add: decode_000_from_def decode_000_loop_short)

lemma long_list:
  assumes "\<not> length s < 4"
  obtains s0 s1 s2 s3 s' where "s = s0 # s1 # s2 # s3 # s'"
proof -
  from assms have "4 \<le> length s" by simp
  then obtain s0 t0 where "s = s0 # t0" "3 \<le> length t0" by (cases s) auto
  moreover then obtain s1 t1 where "t0 = s1 # t1" "2 \<le> length t1" by (cases t0) auto
  moreover then obtain s2 t2 where "t1 = s2 # t2" "1 \<le> length t2" by (cases t1) auto
  moreover then obtain s3 t3 where "t2 = s3 # t3" by (cases t2) auto
  ultimately show ?thesis using that by blast
qed

lemma decode_000_tail_bad:
  assumes "rev_lookup rt (s ! i) = - 1" "i < srclen" "srclen \<le> 3"
  shows "decode_000_tail rt padding srclen s bp = None"
proof -
  from assms(2,3) consider "srclen = 1" | "srclen = 2" "i = 0 \<or> i = 1"
    | "srclen = 3" "i = 0 \<or> i = 1 \<or> i = 2"
    by (cases "srclen = 1"; cases "srclen = 2"; cases "srclen = 3"; simp) linarith+
  then show ?thesis
  proof cases
    case 1
    then show ?thesis by (simp add: decode_000_tail_def)
  next
    case 2
    with assms(1) have "rev_lookup rt (s ! 0) = - 1 \<or> rev_lookup rt (s ! 1) = - 1" by auto
    from tail2_neg [OF this] 2 show ?thesis by (simp add: decode_000_tail_def Let_def)
  next
    case 3
    with assms(1) have "rev_lookup rt (s ! 0) = - 1 \<or> rev_lookup rt (s ! 1) = - 1
       \<or> rev_lookup rt (s ! 2) = - 1" by auto
    from tail3_neg [OF this]  3 show ?thesis by (simp add: decode_000_tail_def Let_def)
  qed
qed


lemma decode_000_from_bad:
  assumes "c \<in> set src" "rev_lookup rt c = - 1" "padding \<longrightarrow> c \<noteq> CHR ''=''"
  shows "decode_000_from rt padding src bp = None"
  using assms(1)
proof (induction "length src" arbitrary: src bp rule: less_induct)
  case less
  show ?case
  proof (cases "length src < 4")
    case True
    from less.prems obtain i where i: "i < length src" "src ! i = c"
      by (auto simp: in_set_conv_nth)
    with True assms(2) have "decode_000_tail rt padding (length src) src bp = None"
      by (intro decode_000_tail_bad [where i = i]) simp_all
    with True show ?thesis by (simp add: decode_000_from_short)
  next
    case False
    then obtain s0 s1 s2 s3 s where src: "src = s0 # s1 # s2 # s3 # s"
      by (rule long_list)
    define val where "val = group_val (rev_lookup rt s0) (rev_lookup rt s1)
      (rev_lookup rt s2) (rev_lookup rt s3)"
    show ?thesis
    proof (cases "c \<in> {s0, s1, s2, s3}")
      case True
      with assms(2) have neg: "val <s 0"
        unfolding val_def by (intro group_val_neg) auto
      show ?thesis
      proof (cases "\<not> padding \<or> s \<noteq> [] \<or> s3 \<noteq> CHR ''=''")
        case True
        with neg show ?thesis
          unfolding src decode_000_from_group val_def [symmetric] by (simp add: Let_def)
      next
        case brk: False
        with assms(3) have c3: "c \<noteq> s3" by auto
        have "decode_000_tail rt False (if s2 = CHR ''='' then 2 else 3) [s0, s1, s2, s3] bp
              = None"
        proof (cases "s2 = CHR ''=''")
          case True
          with brk assms(3) c3 \<open>c \<in> {s0, s1, s2, s3}\<close> have "c = s0 \<or> c = s1" by auto
          then obtain i where "i < 2" "[s0, s1, s2, s3] ! i = c"
            by (auto intro: that [of 0] that [of 1])
          with True assms(2) show ?thesis
            by (intro decode_000_tail_bad [where i = i]) simp_all
        next
          case False
          from c3 \<open>c \<in> {s0, s1, s2, s3}\<close> have "c = s0 \<or> c = s1 \<or> c = s2" by auto
          then obtain i where "i < 3" "[s0, s1, s2, s3] ! i = c"
            by (auto intro: that [of 0] that [of 1] that [of 2])
          with False assms(2) show ?thesis
            by (intro decode_000_tail_bad [where i = i]) simp_all
        qed
        with neg brk show ?thesis
          unfolding src decode_000_from_group val_def [symmetric] by (simp add: Let_def)
      qed
    next
      case False
      with less.prems src have cs: "c \<in> set s" by auto
      then have "s \<noteq> []" by auto
      moreover have "decode_000_from rt padding s bp' = None" for bp'
        using less.hyps [of s bp'] cs src by simp
      ultimately show ?thesis
        unfolding src decode_000_from_group by (simp add: Let_def)
    qed
  qed
qed

lemma decode_001_loop_bad:
  assumes "c \<in> set src" "rev_lookup rt c = - 1" "padding \<longrightarrow> c \<noteq> CHR ''=''"
  shows "decode_001_loop rt padding src (ac, bits, bp) = None"
  using assms(1)
proof (induction src arbitrary: ac bits bp)
  case Nil
  then show ?case by simp
next
  case (Cons x src)
  show ?case
  proof (cases "x = c")
    case True
    with assms(2,3) show ?thesis by auto
  next
    case False
    with Cons.prems have "c \<in> set src" by simp
    then have "decode_001_loop rt padding src st = None" for st
      using Cons.IH by (cases st) auto
    then show ?thesis by (auto simp: Let_def)
  qed
qed

text \<open>
  Claim C6. For every variant and padding flag, both decoders return the invalid-input
  result on an input that contains a character other than \<open>=\<close> that is not in the
  variant's alphabet.
\<close>

theorem base64_decode_rejects_foreign:
  assumes "c \<in> set src" and "c \<noteq> CHR ''=''" and "c \<notin> set (base64_tables variant)"
  shows "base64_decode_000 src padding variant = None \<and>
         base64_decode_001 src padding variant = None"
proof -
  from assms(3) have "rev_lookup (base64_rev_maps variant) c = - 1"
    by (rule rev_not_in_table)
  with assms(1,2) show ?thesis
    by (simp add: base64_decode_000_def base64_decode_001_def decode_000_from_bad
        decode_001_loop_bad decode_001_final_def)
qed

theorem base64_decode_rejects_foreign_witness:
  "CHR ''+'' \<in> set ''Zm+/'' \<and> CHR ''+'' \<noteq> CHR ''='' \<and>
   CHR ''+'' \<notin> set (base64_tables BASE64_URLSAFE) \<and>
   base64_decode_000 ''Zm+/'' True BASE64_URLSAFE = None \<and>
   base64_decode_001 ''Zm+/'' True BASE64_URLSAFE = None"
  using base64_decode_rejects_foreign [of "CHR ''+''" "''Zm+/''" BASE64_URLSAFE True]
  by simp

text \<open>
  Claim C10. With padding disabled, both decoders return the invalid-input result on every
  input that contains the character \<open>=\<close>, for every variant.
\<close>

theorem base64_decode_unpadded_rejects_pad:
  assumes "CHR ''='' \<in> set src"
  shows "base64_decode_000 src False variant = None \<and>
         base64_decode_001 src False variant = None"
proof -
  have "rev_lookup (base64_rev_maps variant) CHR ''='' = - 1"
    using pad_not_in_tables by (rule rev_not_in_table)
  with assms show ?thesis
    by (simp add: base64_decode_000_def base64_decode_001_def decode_000_from_bad
        decode_001_loop_bad decode_001_final_def)
qed

theorem base64_decode_unpadded_rejects_pad_witness:
  "CHR ''='' \<in> set ''Zm8='' \<and>
   base64_decode_000 ''Zm8='' False BASE64_STD = None \<and>
   base64_decode_001 ''Zm8='' False BASE64_STD = None"
  using base64_decode_unpadded_rejects_pad [of "''Zm8=''" BASE64_STD]
  by simp

section \<open>What the grouped encoder writes\<close>

lemma bytes3_24: "take_bit 24 (bytes3 s0 s1 s2) = bytes3 s0 s1 s2"
  unfolding bytes3_def by (rule bit_word_eqI) (auto simp: bit_simps dest: bit_imp_le_length)

lemma bytes3_top: "drop_bit 18 (bytes3 s0 s1 s2) = sextet 18 (bytes3 s0 s1 s2)"
  unfolding bytes3_def sextet_def
  by (rule bit_word_eqI) (auto simp: bit_simps dest: bit_imp_le_length)

lemma and_3f_sextet: "drop_bit k g AND 0x3f = sextet k g" "g AND 0x3f = sextet 0 g"
  by (simp_all add: sextet_def and_3f)

lemma list3_induct [case_names short group]:
  assumes "\<And>xs. length xs < 3 \<Longrightarrow> P xs"
    and "\<And>a b c xs. P xs \<Longrightarrow> P (a # b # c # xs)"
  shows "P xs"
proof (induction "length xs" arbitrary: xs rule: less_induct)
  case less
  show ?case
  proof (cases "length xs < 3")
    case True
    then show ?thesis by (rule assms(1))
  next
    case False
    then obtain a t0 where "xs = a # t0" "2 \<le> length t0" by (cases xs) auto
    moreover then obtain b t1 where "t0 = b # t1" "1 \<le> length t1" by (cases t0) auto
    moreover then obtain c t2 where "t1 = c # t2" by (cases t1) auto
    ultimately have xs: "xs = a # b # c # t2" by simp
    then have "P t2" using less by simp
    then show ?thesis unfolding xs by (rule assms(2))
  qed
qed

lemma short3_cases:
  assumes "length xs < 3"
  obtains "xs = []" | a where "xs = [a]" | a b where "xs = [a, b]"
  using assms by (auto simp: less_Suc_eq numeral_3_eq_3 length_Suc_conv)

lemma encode_000_loop_short:
  "length src < 3 \<Longrightarrow> encode_000_loop tab src cp = (src, cp)"
  by (erule short3_cases) simp_all

lemma encode_000_loop_group:
  "encode_000_loop (base64_tables v) (s0 # s1 # s2 # src) cp =
   encode_000_loop (base64_tables v) src
     (cp @ map (symbol v) [sextet 18 (bytes3 s0 s1 s2), sextet 12 (bytes3 s0 s1 s2),
                           sextet 6 (bytes3 s0 s1 s2), sextet 0 (bytes3 s0 s1 s2)])"
  using bytes3_top [of s0 s1 s2]
  by (simp add: symbol_def sextet_def bytes3_def and_3f Let_def)

lemma encode_000_loop_cp:
  "encode_000_loop (base64_tables v) src cp =
     (fst (encode_000_loop (base64_tables v) src []),
      cp @ snd (encode_000_loop (base64_tables v) src []))"
proof (induction src arbitrary: cp rule: list3_induct)
  case (short xs)
  then show ?case by (simp add: encode_000_loop_short)
next
  case (group a b c xs)
  show ?case
    unfolding encode_000_loop_group
    by (subst group) (subst (2 3) group, simp)
qed

lemma encode_000_tail_cp:
  "encode_000_tail tab padding src (cp @ cp') = cp @ encode_000_tail tab padding src cp'"
  by (simp add: encode_000_tail_def Let_def)

lemma encode_000_dst_group:
  "encode_000_dst (s0 # s1 # s2 # src) padding v =
     map (symbol v) [sextet 18 (bytes3 s0 s1 s2), sextet 12 (bytes3 s0 s1 s2),
                     sextet 6 (bytes3 s0 s1 s2), sextet 0 (bytes3 s0 s1 s2)] @
     encode_000_dst src padding v"
  unfolding encode_000_dst_def Let_def encode_000_loop_group
  by (subst encode_000_loop_cp) (simp add: split_def encode_000_tail_cp [symmetric])

lemma encode_000_dst_two:
  "encode_000_dst [s0, s1] padding v =
     map (symbol v) [sextet 18 (bytes3 s0 s1 0), sextet 12 (bytes3 s0 s1 0),
                     sextet 6 (bytes3 s0 s1 0)] @ (if padding then ''='' else [])"
  using bytes3_top [of s0 s1 0]
  by (simp add: encode_000_dst_def encode_000_tail_def symbol_def sextet_def bytes3_def
      and_3f Let_def)

lemma encode_000_dst_one:
  "encode_000_dst [s0] padding v =
     map (symbol v) [sextet 18 (bytes3 s0 0 0), sextet 12 (bytes3 s0 0 0)] @
     (if padding then ''=='' else [])"
  using bytes3_top [of s0 0 0]
  by (simp add: encode_000_dst_def encode_000_tail_def symbol_def sextet_def bytes3_def
      and_3f Let_def)

lemma encode_000_dst_Nil: "encode_000_dst [] padding v = []"
  by (simp add: encode_000_dst_def encode_000_tail_def)

section \<open>Symbols and their table entries\<close>

lemma sextet_lt: "unat (sextet k g) < 64"
  by (simp add: sextet_def unsigned_take_bit_eq take_bit_nat_less_exp [of 6, simplified])

lemma symbol_in: "symbol v (sextet k g) \<in> set (base64_tables v)"
  using sextet_lt [of k g] by (simp add: symbol_def tables_length)

lemma symbol_not_pad: "symbol v (sextet k g) \<noteq> CHR ''=''"
  using symbol_in [of v k g] pad_not_in_tables [of v] by metis

lemma rev_symbol:
  "rev_lookup (base64_rev_maps v) (symbol v (sextet k g)) = ucast (sextet k g)"
  using rev_of_table [OF sextet_lt, of v k g] by (simp add: symbol_def of_nat_unat)

lemma scast_sextet: "(scast (ucast (sextet k g) :: s8) :: s32) = sextet k g"
  unfolding sextet_def by (rule bit_word_eqI) (auto simp: bit_simps)

lemma ucast_sextet_valid: "(ucast (sextet k g) :: s8) \<noteq> - 1"
proof
  assume "(ucast (sextet k g) :: s8) = - 1"
  then have "bit (ucast (sextet k g) :: s8) 7" by simp
  then show False by (simp add: sextet_def bit_simps)
qed

lemma sextets_join:
  "push_bit 18 (sextet 18 g) OR push_bit 12 (sextet 12 g) OR
   push_bit 6 (sextet 6 g) OR sextet 0 g = take_bit 24 g"
proof (rule bit_word_eqI)
  fix n :: nat
  consider "n < 6" | "6 \<le> n" "n < 12" | "12 \<le> n" "n < 18" | "18 \<le> n" "n < 24" | "24 \<le> n"
    by linarith
  then show "bit (push_bit 18 (sextet 18 g) OR push_bit 12 (sextet 12 g) OR
      push_bit 6 (sextet 6 g) OR sextet 0 g) n = bit (take_bit 24 g) n"
    unfolding sextet_def by cases (auto simp: bit_simps)
qed

lemma group_val_sextets:
  "group_val (ucast (sextet 18 g)) (ucast (sextet 12 g)) (ucast (sextet 6 g))
     (ucast (sextet 0 g)) = take_bit 24 g"
  by (simp only: group_val_def scast_sextet sextets_join)

lemma bytes3_nonneg: "\<not> bytes3 s0 s1 s2 <s 0"
  unfolding sless0_iff bytes3_def by (auto simp: bit_simps dest: bit_imp_le_length)

lemma bytes3_bytes:
  "ucast (signed_drop_bit 16 (bytes3 s0 s1 s2)) = s0"
  "ucast (signed_drop_bit 8 (bytes3 s0 s1 s2)) = s1"
  "ucast (bytes3 s0 s1 s2) = s2"
  unfolding bytes3_def
  by (rule bit_word_eqI; auto simp: bit_simps dest: bit_imp_le_length)+

lemma decode_000_from_symbols:
  "decode_000_from (base64_rev_maps v) padding
     (map (symbol v) [sextet 18 (bytes3 s0 s1 s2), sextet 12 (bytes3 s0 s1 s2),
                      sextet 6 (bytes3 s0 s1 s2), sextet 0 (bytes3 s0 s1 s2)] @ s) bp =
   decode_000_from (base64_rev_maps v) padding s (bp @ [s0, s1, s2])"
  by (simp add: decode_000_from_group rev_symbol group_val_sextets bytes3_24 bytes3_nonneg
      bytes3_bytes)


lemma bit_80000003_int: "bit (0x80000003 :: int) n \<longleftrightarrow> n = 31 \<or> n < 2"
proof -
  have "(0x80000003 :: int) = 2 ^ 31 OR mask 2"
    by (simp add: mask_eq_exp_minus_1)
  then have "bit (0x80000003 :: int) n \<longleftrightarrow> bit (2 ^ 31 OR mask 2 :: int) n"
    by (rule arg_cong)
  also have "\<dots> \<longleftrightarrow> n = 31 \<or> n < 2"
    by (simp only: bit_or_iff bit_exp_iff bit_mask_iff possible_bit_int) auto
  finally show ?thesis .
qed

lemma bit_800003ff_int: "bit (0x800003ff :: int) n \<longleftrightarrow> n = 31 \<or> n < 10"
proof -
  have "(0x800003ff :: int) = 2 ^ 31 OR mask 10"
    by (simp add: mask_eq_exp_minus_1)
  then have "bit (0x800003ff :: int) n \<longleftrightarrow> bit (2 ^ 31 OR mask 10 :: int) n"
    by (rule arg_cong)
  also have "\<dots> \<longleftrightarrow> n = 31 \<or> n < 10"
    by (simp only: bit_or_iff bit_exp_iff bit_mask_iff possible_bit_int) auto
  finally show ?thesis .
qed

lemma Suc_Suc_diff2: "2 \<le> n \<Longrightarrow> Suc (Suc (n - 2)) = n"
  by simp

lemma tail3_sextets:
  fixes s0 s1 :: u8
  defines "g \<equiv> bytes3 s0 s1 0"
  defines "val \<equiv> push_bit 12 (sextet 18 g) OR push_bit 6 (sextet 12 g)"
  shows "(val OR sextet 6 g) AND 0x80000003 = 0"
    and "ucast (signed_drop_bit 10 val) = s0"
    and "ucast (signed_drop_bit 2 (val OR sextet 6 g)) = s1"
proof -
  show "(val OR sextet 6 g) AND 0x80000003 = 0"
    unfolding val_def g_def sextet_def bytes3_def
    by (rule bit_word_eqI) (auto simp: bit_simps bit_80000003_int dest: bit_imp_le_length)
  show "ucast (signed_drop_bit 10 val) = s0"
    unfolding val_def g_def sextet_def bytes3_def
    by (rule bit_word_eqI) (auto simp: bit_simps Suc_Suc_diff2 dest: bit_imp_le_length)
  show "ucast (signed_drop_bit 2 (val OR sextet 6 g)) = s1"
    unfolding val_def g_def sextet_def bytes3_def
    by (rule bit_word_eqI) (auto simp: bit_simps Suc_Suc_diff2 dest: bit_imp_le_length)
qed

lemma tail2_sextets:
  fixes s0 :: u8
  defines "g \<equiv> bytes3 s0 0 0"
  defines "val \<equiv> push_bit 12 (sextet 18 g) OR push_bit 6 (sextet 12 g)"
  shows "val AND 0x800003ff = 0"
    and "ucast (signed_drop_bit 10 val) = s0"
proof -
  show "val AND 0x800003ff = 0"
    unfolding val_def g_def sextet_def bytes3_def
    by (rule bit_word_eqI) (auto simp: bit_simps bit_800003ff_int dest: bit_imp_le_length)
  show "ucast (signed_drop_bit 10 val) = s0"
    unfolding val_def g_def sextet_def bytes3_def
    by (rule bit_word_eqI) (auto simp: bit_simps Suc_Suc_diff2 dest: bit_imp_le_length)
qed

section \<open>Round trip through the grouped decoder\<close>

lemma rev_pad: "rev_lookup (base64_rev_maps v) CHR ''='' = - 1"
  using pad_not_in_tables by (rule rev_not_in_table)

lemma decode_000_tail_two_symbols:
  "srclen = 2 \<Longrightarrow>
   decode_000_tail (base64_rev_maps v) False srclen
     (symbol v (sextet 18 (bytes3 s0 0 0)) # symbol v (sextet 12 (bytes3 s0 0 0)) # s) bp =
   Some (bp @ [s0])"
  by (simp add: decode_000_tail_def rev_symbol scast_sextet tail2_sextets Let_def)

lemma decode_000_tail_three_symbols:
  "srclen = 3 \<Longrightarrow>
   decode_000_tail (base64_rev_maps v) False srclen
     (symbol v (sextet 18 (bytes3 s0 s1 0)) # symbol v (sextet 12 (bytes3 s0 s1 0)) #
      symbol v (sextet 6 (bytes3 s0 s1 0)) # s) bp =
   Some (bp @ [s0, s1])"
  by (simp add: decode_000_tail_def rev_symbol scast_sextet tail3_sextets Let_def)

lemma decode_000_from_short_encoding:
  assumes "length src < 3"
  shows "decode_000_from (base64_rev_maps v) padding (encode_000_dst src padding v) bp =
         Some (bp @ src)"
  using assms
proof (cases rule: short3_cases)
  case 1
  then show ?thesis
    by (simp add: encode_000_dst_Nil decode_000_from_short decode_000_tail_def)
next
  case (2 a)
  show ?thesis
  proof (cases padding)
    case True
    then show ?thesis
      unfolding 2 encode_000_dst_one
      by (simp add: decode_000_from_group rev_pad group_val_neg decode_000_tail_two_symbols)
  next
    case False
    then show ?thesis
      unfolding 2 encode_000_dst_one
      by (simp add: decode_000_from_short decode_000_tail_two_symbols)
  qed
next
  case (3 a b)
  show ?thesis
  proof (cases padding)
    case True
    then show ?thesis
      unfolding 3 encode_000_dst_two
      by (simp add: decode_000_from_group rev_pad group_val_neg symbol_not_pad
          decode_000_tail_three_symbols)
  next
    case False
    then show ?thesis
      unfolding 3 encode_000_dst_two
      by (simp add: decode_000_from_short decode_000_tail_three_symbols)
  qed
qed

lemma decode_000_from_encoding:
  "decode_000_from (base64_rev_maps v) padding (encode_000_dst src padding v) bp =
   Some (bp @ src)"
proof (induction src arbitrary: bp rule: list3_induct)
  case (short xs)
  then show ?case by (rule decode_000_from_short_encoding)
next
  case (group a b c xs)
  show ?case
    unfolding encode_000_dst_group decode_000_from_symbols by (simp add: group)
qed

lemma base64_decode_000_encode_000:
  "base64_decode_000 (encode_000_dst src padding v) padding v = Some src"
  by (simp add: base64_decode_000_def decode_000_from_encoding)

section \<open>Round trip through the accumulator decoder\<close>

lemma acc_bytes:
  fixes ac :: u32 and s0 s1 s2 :: u8
  defines "g \<equiv> bytes3 s0 s1 s2"
  defines "a1 \<equiv> push_bit 6 (push_bit 6 ac OR sextet 18 g) OR sextet 12 g"
  defines "a2 \<equiv> push_bit 6 a1 OR sextet 6 g"
  defines "a3 \<equiv> push_bit 6 a2 OR sextet 0 g"
  shows "ucast (drop_bit 4 a1) = s0" and "ucast (drop_bit 2 a2) = s1" and "ucast a3 = s2"
proof -
  show "ucast (drop_bit 4 a1) = s0"
    unfolding a1_def g_def sextet_def bytes3_def
    by (rule bit_word_eqI) (auto simp: bit_simps Suc_Suc_diff2 dest: bit_imp_le_length)
  show "ucast (drop_bit 2 a2) = s1"
    unfolding a2_def a1_def g_def sextet_def bytes3_def
    by (rule bit_word_eqI) (auto simp: bit_simps Suc_Suc_diff2 dest: bit_imp_le_length)
  show "ucast a3 = s2"
    unfolding a3_def a2_def a1_def g_def sextet_def bytes3_def
    by (rule bit_word_eqI) (auto simp: bit_simps Suc_Suc_diff2 dest: bit_imp_le_length)
qed


lemma acc_filler:
  fixes ac :: u32 and s0 s1 :: u8
  shows "(push_bit 6 (push_bit 6 ac OR sextet 18 (bytes3 s0 0 0)) OR
           sextet 12 (bytes3 s0 0 0)) AND 15 = 0"
    and "(push_bit 6 (push_bit 6 (push_bit 6 ac OR sextet 18 (bytes3 s0 s1 0)) OR
           sextet 12 (bytes3 s0 s1 0)) OR sextet 6 (bytes3 s0 s1 0)) AND 3 = 0"
proof -
  have m: "(15 :: u32) = mask 4" "(3 :: u32) = mask 2"
    by (simp_all add: mask_eq_exp_minus_1)
  show "(push_bit 6 (push_bit 6 ac OR sextet 18 (bytes3 s0 0 0)) OR
           sextet 12 (bytes3 s0 0 0)) AND 15 = 0"
    unfolding m sextet_def bytes3_def
    by (rule bit_word_eqI) (auto simp: bit_simps dest: bit_imp_le_length)
  show "(push_bit 6 (push_bit 6 (push_bit 6 ac OR sextet 18 (bytes3 s0 s1 0)) OR
           sextet 12 (bytes3 s0 s1 0)) OR sextet 6 (bytes3 s0 s1 0)) AND 3 = 0"
    unfolding m sextet_def bytes3_def
    by (rule bit_word_eqI) (auto simp: bit_simps dest: bit_imp_le_length)
qed

lemma decode_001_loop_symbols:
  "\<exists>ac'. decode_001_loop (base64_rev_maps v) padding
     (map (symbol v) [sextet 18 (bytes3 s0 s1 s2), sextet 12 (bytes3 s0 s1 s2),
                      sextet 6 (bytes3 s0 s1 s2), sextet 0 (bytes3 s0 s1 s2)] @ s)
     (ac, 0, bp) =
   decode_001_loop (base64_rev_maps v) padding s (ac', 0, bp @ [s0, s1, s2])"
  using acc_bytes [of ac s0 s1 s2]
  by (simp add: rev_symbol ucast_sextet_valid symbol_not_pad scast_sextet Let_def) blast

lemma decode_001_short_encoding:
  assumes "length src < 3"
  shows "decode_001_final (decode_001_loop (base64_rev_maps v) padding
           (encode_000_dst src padding v) (ac, 0, bp)) = Some (bp @ src)"
  using assms
proof (cases rule: short3_cases)
  case 1
  then show ?thesis
    by (simp add: encode_000_dst_Nil decode_001_final_def)
next
  case (2 a)
  show ?thesis
    unfolding 2 encode_000_dst_one
    using acc_bytes(1) [of ac a 0 0] acc_filler(1) [of ac a]
    by (simp add: rev_symbol ucast_sextet_valid symbol_not_pad scast_sextet Let_def
        decode_001_final_def)
next
  case (3 a b)
  show ?thesis
    unfolding 3 encode_000_dst_two
    using acc_bytes(1,2) [of ac a b 0] acc_filler(2) [of ac a b]
    by (simp add: rev_symbol ucast_sextet_valid symbol_not_pad scast_sextet Let_def
        decode_001_final_def)
qed

lemma decode_001_encoding:
  "decode_001_final (decode_001_loop (base64_rev_maps v) padding
     (encode_000_dst src padding v) (ac, 0, bp)) = Some (bp @ src)"
proof (induction src arbitrary: ac bp rule: list3_induct)
  case (short xs)
  then show ?case by (rule decode_001_short_encoding)
next
  case (group a b c xs)
  obtain ac' where "decode_001_loop (base64_rev_maps v) padding
     (map (symbol v) [sextet 18 (bytes3 a b c), sextet 12 (bytes3 a b c),
                      sextet 6 (bytes3 a b c), sextet 0 (bytes3 a b c)] @
      encode_000_dst xs padding v) (ac, 0, bp) =
     decode_001_loop (base64_rev_maps v) padding (encode_000_dst xs padding v)
       (ac', 0, bp @ [a, b, c])"
    using decode_001_loop_symbols by blast
  then show ?case
    unfolding encode_000_dst_group by (simp add: group)
qed

lemma base64_decode_001_encode_001:
  "base64_decode_001 (encode_001_dst src padding v) padding v = Some src"
  unfolding encode_001_dst_eq_000 base64_decode_001_def
  using decode_001_encoding [of v padding src 0 "[]"] by simp

text \<open>
  Claim C1, as the code has it. For every variant and every byte sequence whose padded
  encoding has fewer than \<open>2^31\<close> characters, decoding what the encoder wrote, with the
  length the encoder returned and with padding enabled, returns exactly the byte sequence;
  this holds for the pair of part 000 and for the pair of part 001.
\<close>

theorem base64_roundtrip_padded:
  assumes "4 * ((length src + 2) div 3) < 2 ^ 31"
  shows "roundtrip_000 src True variant = Some src \<and>
         roundtrip_001 src True variant = Some src"
proof -
  have l: "length (encode_000_dst src True variant) = 4 * ((length src + 2) div 3)"
    by (simp add: encode_000_dst_length)
  with assms have "c_int (length (encode_000_dst src True variant)) =
                   int (length (encode_000_dst src True variant))"
    by (simp add: c_int_fits)
  then show ?thesis
    using base64_decode_001_encode_001 [of src True variant]
    by (simp add: roundtrip_000_def roundtrip_001_def base64_encode_000_def
        base64_encode_001_def base64_decode_000_len_def base64_decode_001_len_def
        base64_decode_000_encode_000 encode_001_dst_eq_000 Let_def)
qed

theorem base64_roundtrip_padded_witness:
  "4 * ((length [0x66, 0x6f, 0x6f :: u8] + 2) div 3) < (2 ^ 31 :: nat) \<and>
   roundtrip_000 [0x66, 0x6f, 0x6f] True BASE64_STD = Some [0x66, 0x6f, 0x6f] \<and>
   roundtrip_001 [0x66, 0x6f, 0x6f] True BASE64_STD = Some [0x66, 0x6f, 0x6f]"
  using base64_roundtrip_padded [of "[0x66, 0x6f, 0x6f]" BASE64_STD]
  by simp

text \<open>
  Claim C1 as stated fails where the encoder's count does not fit the \<open>int\<close>: for
  1610612734 bytes the encoder returns \<open>-2^31\<close>; given that length, the grouped decoder
  returns the invalid-input result and the accumulator decoder returns no bytes.
\<close>

theorem base64_roundtrip_padded_counterexample:
  "roundtrip_000 (replicate 1610612734 0) True BASE64_STD = None \<and>
   roundtrip_001 (replicate 1610612734 0) True BASE64_STD = Some [] \<and>
   replicate 1610612734 (0 :: u8) \<noteq> []"
proof -
  have "c_int (length (encode_000_dst (replicate 1610612734 0) True BASE64_STD))
        = - 2147483648"
    by (simp add: encode_000_dst_length c_int_def)
  moreover have "base64_decode_001 [] True BASE64_STD = Some []"
    by (simp add: base64_decode_001_def decode_001_final_def)
  ultimately show ?thesis
    by (simp add: roundtrip_000_def roundtrip_001_def base64_encode_000_def
        base64_encode_001_def base64_decode_000_len_def base64_decode_001_len_def
        encode_001_dst_eq_000 decode_000_tail_def Let_def)
qed

section \<open>The grouped decoder accepts exactly the encoder's output\<close>

text \<open>
  Every symbol of the alphabet is the symbol of a 6-bit value, four such symbols are the
  encoding of three bytes, and a partial group that passes the filler-bit check is the
  encoding of the one or two bytes it decodes to. Hence the grouped decoder (part 000)
  returns bytes for an input exactly when the input is what the encoder writes for
  those bytes, and whatever it accepts the accumulator decoder (part 001) accepts with
  the same result.
\<close>

lemma in_table_symbol:
  assumes "c \<in> set (base64_tables v)"
  obtains x :: u32 where "c = symbol v (sextet 0 x)"
proof -
  from assms obtain n where n: "n < 64" "base64_tables v ! n = c"
    by (auto simp: in_set_conv_nth tables_length)
  have "take_bit 6 n = n"
    using n(1) by (simp add: take_bit_nat_eq_self)
  then have "unat (sextet 0 (of_nat n :: u32)) = n"
    using n(1) by (simp add: sextet_def unsigned_take_bit_eq unsigned_of_nat take_bit_nat_eq_self)
  with n(2) have "c = symbol v (sextet 0 (of_nat n))"
    by (simp add: symbol_def)
  then show ?thesis by (rule that)
qed

lemma join_sextets:
  fixes x0 x1 x2 x3 :: u32
  defines "g \<equiv> push_bit 18 (sextet 0 x0) OR push_bit 12 (sextet 0 x1) OR
                 push_bit 6 (sextet 0 x2) OR sextet 0 x3"
  shows "sextet 18 g = sextet 0 x0" and "sextet 12 g = sextet 0 x1"
    and "sextet 6 g = sextet 0 x2" and "sextet 0 g = sextet 0 x3"
    and "take_bit 24 g = g"
proof -
  show "sextet 18 g = sextet 0 x0"
    unfolding g_def sextet_def by (rule bit_word_eqI) (auto simp: bit_simps)
  show "sextet 12 g = sextet 0 x1"
    unfolding g_def sextet_def by (rule bit_word_eqI) (auto simp: bit_simps)
  show "sextet 6 g = sextet 0 x2"
    unfolding g_def sextet_def by (rule bit_word_eqI) (auto simp: bit_simps)
  show "sextet 0 g = sextet 0 x3"
    unfolding g_def sextet_def by (rule bit_word_eqI) (auto simp: bit_simps)
  show "take_bit 24 g = g"
    unfolding g_def sextet_def by (rule bit_word_eqI) (auto simp: bit_simps)
qed

lemma bytes3_of_24:
  fixes g :: u32
  assumes "take_bit 24 g = g"
  shows "bytes3 (ucast (drop_bit 16 g)) (ucast (drop_bit 8 g)) (ucast g) = g"
proof -
  have "bytes3 (ucast (drop_bit 16 g)) (ucast (drop_bit 8 g)) (ucast g) = take_bit 24 g"
  proof (rule bit_word_eqI)
    fix n :: nat
    consider "n < 8" | "8 \<le> n" "n < 16" | "16 \<le> n" "n < 24" | "24 \<le> n" by linarith
    then show "bit (bytes3 (ucast (drop_bit 16 g)) (ucast (drop_bit 8 g)) (ucast g)) n =
               bit (take_bit 24 g) n"
      unfolding bytes3_def by cases (auto simp: bit_simps)
  qed
  with assms show ?thesis by simp
qed


lemma valid_group_symbols:
  assumes "c0 \<in> set (base64_tables v)" "c1 \<in> set (base64_tables v)"
    "c2 \<in> set (base64_tables v)" "c3 \<in> set (base64_tables v)"
  obtains B0 B1 B2 where
    "[c0, c1, c2, c3] =
       map (symbol v) [sextet 18 (bytes3 B0 B1 B2), sextet 12 (bytes3 B0 B1 B2),
                       sextet 6 (bytes3 B0 B1 B2), sextet 0 (bytes3 B0 B1 B2)]"
proof -
  from assms obtain x0 x1 x2 x3 :: u32 where
    c: "c0 = symbol v (sextet 0 x0)" "c1 = symbol v (sextet 0 x1)"
       "c2 = symbol v (sextet 0 x2)" "c3 = symbol v (sextet 0 x3)"
    by (metis in_table_symbol)
  define g where "g = push_bit 18 (sextet 0 x0) OR push_bit 12 (sextet 0 x1) OR
                      push_bit 6 (sextet 0 x2) OR sextet 0 x3"
  note j = join_sextets [of x0 x1 x2 x3, folded g_def]
  have "bytes3 (ucast (drop_bit 16 g)) (ucast (drop_bit 8 g)) (ucast g) = g"
    using j(5) by (rule bytes3_of_24)
  with j(1-4) c show ?thesis
    by (intro that [of "ucast (drop_bit 16 g)" "ucast (drop_bit 8 g)" "ucast g"]) simp
qed

lemma tail2_filler:
  fixes x0 x1 :: u32
  assumes "(push_bit 12 (sextet 0 x0) OR push_bit 6 (sextet 0 x1)) AND 0x800003ff = 0"
    and "bit x1 n"
  shows "4 \<le> n"
proof (rule ccontr)
  assume "\<not> 4 \<le> n"
  moreover
  have "\<not> bit ((push_bit 12 (sextet 0 x0) OR push_bit 6 (sextet 0 x1)) AND 0x800003ff) (n + 6)"
    unfolding assms(1) by simp
  ultimately show False
    using assms(2) by (simp add: bit_simps bit_800003ff_int sextet_def)
qed

lemma tail3_filler:
  fixes x0 x1 x2 :: u32
  assumes "((push_bit 12 (sextet 0 x0) OR push_bit 6 (sextet 0 x1)) OR sextet 0 x2)
             AND 0x80000003 = 0"
    and "bit x2 n"
  shows "2 \<le> n"
proof (rule ccontr)
  assume "\<not> 2 \<le> n"
  moreover
  have "\<not> bit (((push_bit 12 (sextet 0 x0) OR push_bit 6 (sextet 0 x1)) OR sextet 0 x2)
             AND 0x80000003) n"
    unfolding assms(1) by simp
  ultimately show False
    using assms(2) by (simp add: bit_simps bit_80000003_int sextet_def)
qed

lemma less6_cases:
  assumes "n < 6" "P 0" "P 1" "P 2" "P 3" "P 4" "P 5"
  shows "P (n :: nat)"
proof -
  from assms(1) consider "n = 0" | "n = 1" | "n = 2" | "n = 3" | "n = 4" | "n = 5"
    by linarith
  then show ?thesis using assms(2-) by cases auto
qed

lemma sextet_eqI:
  assumes "\<And>n. n < 6 \<Longrightarrow> bit (sextet k g) n = bit (sextet k' g') n"
  shows "sextet k g = sextet k' g'"
proof (rule bit_word_eqI)
  fix n :: nat
  show "bit (sextet k g) n = bit (sextet k' g') n"
  proof (cases "n < 6")
    case True
    then show ?thesis by (rule assms)
  next
    case False
    then show ?thesis by (simp add: sextet_def bit_simps)
  qed
qed

lemma tail2_inverse:
  fixes x0 x1 :: u32
  defines "val \<equiv> push_bit 12 (sextet 0 x0) OR push_bit 6 (sextet 0 x1)"
  defines "B0 \<equiv> ucast (signed_drop_bit 10 val) :: u8"
  assumes "val AND 0x800003ff = 0"
  shows "sextet 18 (bytes3 B0 0 0) = sextet 0 x0" and "sextet 12 (bytes3 B0 0 0) = sextet 0 x1"
proof -
  note f = tail2_filler [OF assms(3) [unfolded val_def]]
  show "sextet 18 (bytes3 B0 0 0) = sextet 0 x0"
  proof (rule sextet_eqI)
    fix n :: nat
    assume "n < 6"
    then show "bit (sextet 18 (bytes3 B0 0 0)) n = bit (sextet 0 x0) n"
      unfolding B0_def val_def sextet_def bytes3_def
      by (rule less6_cases) (simp_all add: bit_simps)
  qed
  show "sextet 12 (bytes3 B0 0 0) = sextet 0 x1"
  proof (rule sextet_eqI)
    fix n :: nat
    assume "n < 6"
    then show "bit (sextet 12 (bytes3 B0 0 0)) n = bit (sextet 0 x1) n"
      unfolding B0_def val_def sextet_def bytes3_def
      using f [of 0] f [of 1] f [of 2] f [of 3]
      by - (erule less6_cases, auto simp: bit_simps)
  qed
qed


lemma tail3_inverse:
  fixes x0 x1 x2 :: u32
  defines "val \<equiv> push_bit 12 (sextet 0 x0) OR push_bit 6 (sextet 0 x1)"
  defines "B0 \<equiv> ucast (signed_drop_bit 10 val) :: u8"
  defines "B1 \<equiv> ucast (signed_drop_bit 2 (val OR sextet 0 x2)) :: u8"
  assumes "(val OR sextet 0 x2) AND 0x80000003 = 0"
  shows "sextet 18 (bytes3 B0 B1 0) = sextet 0 x0" and "sextet 12 (bytes3 B0 B1 0) = sextet 0 x1"
    and "sextet 6 (bytes3 B0 B1 0) = sextet 0 x2"
proof -
  note f = tail3_filler [OF assms(4) [unfolded val_def]]
  show "sextet 18 (bytes3 B0 B1 0) = sextet 0 x0"
  proof (rule sextet_eqI)
    fix n :: nat
    assume "n < 6"
    then show "bit (sextet 18 (bytes3 B0 B1 0)) n = bit (sextet 0 x0) n"
      unfolding B0_def B1_def val_def sextet_def bytes3_def
      by (rule less6_cases) (simp_all add: bit_simps)
  qed
  show "sextet 12 (bytes3 B0 B1 0) = sextet 0 x1"
  proof (rule sextet_eqI)
    fix n :: nat
    assume "n < 6"
    then show "bit (sextet 12 (bytes3 B0 B1 0)) n = bit (sextet 0 x1) n"
      unfolding B0_def B1_def val_def sextet_def bytes3_def
      by (rule less6_cases) (simp_all add: bit_simps)
  qed
  show "sextet 6 (bytes3 B0 B1 0) = sextet 0 x2"
  proof (rule sextet_eqI)
    fix n :: nat
    assume "n < 6"
    then show "bit (sextet 6 (bytes3 B0 B1 0)) n = bit (sextet 0 x2) n"
      unfolding B0_def B1_def val_def sextet_def bytes3_def
      using f [of 0] f [of 1]
      by - (erule less6_cases, auto simp: bit_simps)
  qed
qed

lemma rev_valid_in_table:
  "rev_lookup (base64_rev_maps v) c \<noteq> - 1 \<Longrightarrow> c \<in> set (base64_tables v)"
  using rev_not_in_table by blast

lemma decode_000_tail_two_canonical:
  assumes "decode_000_tail (base64_rev_maps v) False 2 (c0 # c1 # rest) bp = Some bs"
  obtains B0 where "bs = bp @ [B0]"
    and "c0 = symbol v (sextet 18 (bytes3 B0 0 0))"
    and "c1 = symbol v (sextet 12 (bytes3 B0 0 0))"
proof -
  have "rev_lookup (base64_rev_maps v) ((c0 # c1 # rest) ! i) \<noteq> - 1" if "i < 2" for i
    using assms decode_000_tail_bad [of "base64_rev_maps v" "c0 # c1 # rest" i 2 False bp] that
    by auto
  from this [of 0] this [of 1] have "c0 \<in> set (base64_tables v)" "c1 \<in> set (base64_tables v)"
    by (auto intro: rev_valid_in_table)
  then obtain x0 x1 :: u32 where c: "c0 = symbol v (sextet 0 x0)" "c1 = symbol v (sextet 0 x1)"
    by (metis in_table_symbol)
  define val where "val = push_bit 12 (sextet 0 x0) OR push_bit 6 (sextet 0 x1)"
  from assms have v: "val AND 0x800003ff = 0" and bs: "bs = bp @ [ucast (signed_drop_bit 10 val)]"
    unfolding c val_def
    by (auto simp: decode_000_tail_def rev_symbol scast_sextet Let_def split: if_splits)
  from tail2_inverse [OF v [unfolded val_def]] c bs show ?thesis
    by (intro that [of "ucast (signed_drop_bit 10 val)"]) (simp_all add: val_def)
qed

lemma decode_000_tail_three_canonical:
  assumes "decode_000_tail (base64_rev_maps v) False 3 (c0 # c1 # c2 # rest) bp = Some bs"
  obtains B0 B1 where "bs = bp @ [B0, B1]"
    and "c0 = symbol v (sextet 18 (bytes3 B0 B1 0))"
    and "c1 = symbol v (sextet 12 (bytes3 B0 B1 0))"
    and "c2 = symbol v (sextet 6 (bytes3 B0 B1 0))"
proof -
  have "rev_lookup (base64_rev_maps v) ((c0 # c1 # c2 # rest) ! i) \<noteq> - 1" if "i < 3" for i
    using assms decode_000_tail_bad [of "base64_rev_maps v" "c0 # c1 # c2 # rest" i 3 False bp]
      that
    by auto
  from this [of 0] this [of 1] this [of 2]
  have "c0 \<in> set (base64_tables v)" "c1 \<in> set (base64_tables v)"
    "c2 \<in> set (base64_tables v)"
    by (auto intro: rev_valid_in_table)
  then obtain x0 x1 x2 :: u32 where c: "c0 = symbol v (sextet 0 x0)"
    "c1 = symbol v (sextet 0 x1)" "c2 = symbol v (sextet 0 x2)"
    by (metis in_table_symbol)
  define val where "val = push_bit 12 (sextet 0 x0) OR push_bit 6 (sextet 0 x1)"
  from assms have v: "(val OR sextet 0 x2) AND 0x80000003 = 0"
    and bs: "bs = bp @ [ucast (signed_drop_bit 10 val),
                        ucast (signed_drop_bit 2 (val OR sextet 0 x2))]"
    unfolding c val_def
    by (auto simp: decode_000_tail_def rev_symbol scast_sextet Let_def split: if_splits)
  from tail3_inverse [OF v [unfolded val_def]] c bs show ?thesis
    by (intro that [of "ucast (signed_drop_bit 10 val)"
          "ucast (signed_drop_bit 2 (val OR sextet 0 x2))"]) (simp_all add: val_def)
qed


lemma short4_cases:
  assumes "length xs < 4"
  obtains "xs = []" | a where "xs = [a]" | a b where "xs = [a, b]"
  | a b c where "xs = [a, b, c]"
  using assms by (auto simp: less_Suc_eq numeral_eq_Suc length_Suc_conv)

lemma decode_000_short_canonical:
  assumes "length src < 4"
    and "decode_000_from (base64_rev_maps v) padding src bp = Some bs"
  shows "\<exists>B. bs = bp @ B \<and> src = encode_000_dst B padding v"
  using assms(1)
proof (cases rule: short4_cases)
  case 1
  with assms(2) have "bs = bp"
    by (simp add: decode_000_from_short decode_000_tail_def)
  with 1 show ?thesis
    by (intro exI [of _ "[]"]) (simp add: encode_000_dst_Nil)
next
  case (2 a)
  with assms(2) show ?thesis
    by (simp add: decode_000_from_short decode_000_tail_def)
next
  case (3 a b)
  with assms(2) have p: "\<not> padding"
    and t: "decode_000_tail (base64_rev_maps v) False 2 [a, b] bp = Some bs"
    by (auto simp: decode_000_from_short decode_000_tail_def split: if_splits)
  from t obtain B0 where "bs = bp @ [B0]" "a = symbol v (sextet 18 (bytes3 B0 0 0))"
    "b = symbol v (sextet 12 (bytes3 B0 0 0))"
    by (rule decode_000_tail_two_canonical)
  with 3 p show ?thesis
    by (intro exI [of _ "[B0]"]) (simp add: encode_000_dst_one)
next
  case (4 a b c)
  with assms(2) have p: "\<not> padding"
    and t: "decode_000_tail (base64_rev_maps v) False 3 [a, b, c] bp = Some bs"
    by (auto simp: decode_000_from_short decode_000_tail_def split: if_splits)
  from t obtain B0 B1 where "bs = bp @ [B0, B1]"
    "a = symbol v (sextet 18 (bytes3 B0 B1 0))"
    "b = symbol v (sextet 12 (bytes3 B0 B1 0))"
    "c = symbol v (sextet 6 (bytes3 B0 B1 0))"
    by (rule decode_000_tail_three_canonical)
  with 4 p show ?thesis
    by (intro exI [of _ "[B0, B1]"]) (simp add: encode_000_dst_two)
qed

lemma decode_000_padded_group_canonical:
  assumes "\<not> (c0 \<in> set (base64_tables v) \<and> c1 \<in> set (base64_tables v) \<and>
              c2 \<in> set (base64_tables v) \<and> c3 \<in> set (base64_tables v))"
    and "decode_000_from (base64_rev_maps v) padding (c0 # c1 # c2 # c3 # s) bp = Some bs"
  shows "\<exists>B. bs = bp @ B \<and> c0 # c1 # c2 # c3 # s = encode_000_dst B padding v"
proof -
  from assms(1) have "rev_lookup (base64_rev_maps v) c0 = - 1 \<or>
      rev_lookup (base64_rev_maps v) c1 = - 1 \<or> rev_lookup (base64_rev_maps v) c2 = - 1 \<or>
      rev_lookup (base64_rev_maps v) c3 = - 1"
    using rev_not_in_table by blast
  then have neg: "group_val (rev_lookup (base64_rev_maps v) c0)
      (rev_lookup (base64_rev_maps v) c1) (rev_lookup (base64_rev_maps v) c2)
      (rev_lookup (base64_rev_maps v) c3) <s 0"
    by (rule group_val_neg)
  with assms(2) have p: "padding" "s = []" "c3 = CHR ''=''"
    and t: "decode_000_tail (base64_rev_maps v) False (if c2 = CHR ''='' then 2 else 3)
              [c0, c1, c2, c3] bp = Some bs"
    by (auto simp: decode_000_from_group Let_def split: if_splits)
  show ?thesis
  proof (cases "c2 = CHR ''=''")
    case True
    with t obtain B0 where "bs = bp @ [B0]" "c0 = symbol v (sextet 18 (bytes3 B0 0 0))"
      "c1 = symbol v (sextet 12 (bytes3 B0 0 0))"
      by (auto elim: decode_000_tail_two_canonical)
    with True p show ?thesis
      by (intro exI [of _ "[B0]"]) (simp add: encode_000_dst_one)
  next
    case False
    with t obtain B0 B1 where "bs = bp @ [B0, B1]"
      "c0 = symbol v (sextet 18 (bytes3 B0 B1 0))"
      "c1 = symbol v (sextet 12 (bytes3 B0 B1 0))"
      "c2 = symbol v (sextet 6 (bytes3 B0 B1 0))"
      by (auto elim: decode_000_tail_three_canonical)
    with p show ?thesis
      by (intro exI [of _ "[B0, B1]"]) (simp add: encode_000_dst_two)
  qed
qed

lemma decode_000_from_canonical:
  assumes "decode_000_from (base64_rev_maps v) padding src bp = Some bs"
  shows "\<exists>B. bs = bp @ B \<and> src = encode_000_dst B padding v"
  using assms
proof (induction "length src" arbitrary: src bp rule: less_induct)
  case less
  show ?case
  proof (cases "length src < 4")
    case True
    then show ?thesis using less.prems by (rule decode_000_short_canonical)
  next
    case False
    then obtain c0 c1 c2 c3 s where src: "src = c0 # c1 # c2 # c3 # s"
      by (rule long_list)
    show ?thesis
    proof (cases "c0 \<in> set (base64_tables v) \<and> c1 \<in> set (base64_tables v) \<and>
              c2 \<in> set (base64_tables v) \<and> c3 \<in> set (base64_tables v)")
      case True
      then obtain B0 B1 B2 where g: "[c0, c1, c2, c3] =
         map (symbol v) [sextet 18 (bytes3 B0 B1 B2), sextet 12 (bytes3 B0 B1 B2),
                         sextet 6 (bytes3 B0 B1 B2), sextet 0 (bytes3 B0 B1 B2)]"
        by (auto elim: valid_group_symbols)
      have "src = map (symbol v) [sextet 18 (bytes3 B0 B1 B2), sextet 12 (bytes3 B0 B1 B2),
                         sextet 6 (bytes3 B0 B1 B2), sextet 0 (bytes3 B0 B1 B2)] @ s"
        unfolding g [symmetric] src by simp
      with less.prems have "decode_000_from (base64_rev_maps v) padding s (bp @ [B0, B1, B2])
                            = Some bs"
        by (simp only: decode_000_from_symbols)
      with less.hyps [of s "bp @ [B0, B1, B2]"] src
      obtain B where B: "bs = (bp @ [B0, B1, B2]) @ B" "s = encode_000_dst B padding v"
        by auto
      have "src = encode_000_dst (B0 # B1 # B2 # B) padding v"
        unfolding encode_000_dst_group B(2) [symmetric] g [symmetric] src by simp
      with B(1) show ?thesis
        by (intro exI [of _ "B0 # B1 # B2 # B"]) simp
    next
      case False
      then show ?thesis
        using less.prems unfolding src by (rule decode_000_padded_group_canonical)
    qed
  qed
qed

lemma base64_decode_000_iff:
  "base64_decode_000 src padding v = Some bs \<longleftrightarrow> src = encode_000_dst bs padding v"
proof
  assume "base64_decode_000 src padding v = Some bs"
  then show "src = encode_000_dst bs padding v"
    unfolding base64_decode_000_def using decode_000_from_canonical [of v padding src "[]" bs]
    by auto
next
  assume "src = encode_000_dst bs padding v"
  then show "base64_decode_000 src padding v = Some bs"
    by (simp add: base64_decode_000_encode_000)
qed

lemma base64_decode_000_refines:
  assumes "base64_decode_000 src padding v = Some bs"
  shows "base64_decode_001 src padding v = Some bs"
  using assms base64_decode_001_encode_001 [of bs padding v]
  by (simp add: base64_decode_000_iff encode_001_dst_eq_000)

section \<open>What follows for the grouped decoder\<close>

text \<open>
  With padding enabled the grouped decoder accepts only inputs whose length is a multiple
  of 4 and in which \<open>=\<close> occurs only as a suffix of at most two characters.
\<close>

lemma decode_000_padded_multiple_of_4:
  assumes "base64_decode_000 src True v = Some bs"
  shows "length src mod 4 = 0"
proof -
  from assms have "src = encode_000_dst bs True v"
    by (simp add: base64_decode_000_iff)
  then have "length src = 4 * ((length bs + 2) div 3)"
    by (simp add: encode_000_dst_length)
  then show ?thesis by simp
qed

lemma encode_000_dst_shape:
  "\<exists>syms pads. encode_000_dst B padding v = syms @ pads \<and>
     set syms \<subseteq> set (base64_tables v) \<and>
     (pads = [] \<or> padding \<and> (pads = ''='' \<or> pads = ''==''))"
proof (induction B rule: list3_induct)
  case (short xs)
  then show ?case
  proof (cases rule: short3_cases)
    case 1
    then show ?thesis
      by (intro exI [of _ "[]"]) (simp add: encode_000_dst_Nil)
  next
    case (2 a)
    show ?thesis
      unfolding 2 encode_000_dst_one
      by (intro exI [of _ "map (symbol v) [sextet 18 (bytes3 a 0 0), sextet 12 (bytes3 a 0 0)]"]
          exI [of _ "if padding then ''=='' else []"]) (simp add: symbol_in)
  next
    case (3 a b)
    show ?thesis
      unfolding 3 encode_000_dst_two
      by (intro exI [of _ "map (symbol v) [sextet 18 (bytes3 a b 0), sextet 12 (bytes3 a b 0),
            sextet 6 (bytes3 a b 0)]"]
          exI [of _ "if padding then ''='' else []"]) (simp add: symbol_in)
  qed
next
  case (group a b c xs)
  then obtain syms pads where "encode_000_dst xs padding v = syms @ pads"
    "set syms \<subseteq> set (base64_tables v)"
    "pads = [] \<or> padding \<and> (pads = ''='' \<or> pads = ''=='')"
    by blast
  then show ?case
    unfolding encode_000_dst_group
    by (intro exI [of _ "map (symbol v) [sextet 18 (bytes3 a b c), sextet 12 (bytes3 a b c),
            sextet 6 (bytes3 a b c), sextet 0 (bytes3 a b c)] @ syms"] exI [of _ pads])
      (simp add: symbol_in)
qed

lemma decode_000_padded_pad_position:
  assumes "base64_decode_000 src True v = Some bs" and "i < length src"
    and "src ! i = CHR ''=''"
  shows "length src - 2 \<le> i \<and> (\<forall>j. i \<le> j \<and> j < length src \<longrightarrow> src ! j = CHR ''='')"
proof -
  from assms(1) have "src = encode_000_dst bs True v"
    by (simp add: base64_decode_000_iff)
  then obtain syms pads where s: "src = syms @ pads" "set syms \<subseteq> set (base64_tables v)"
    "pads = [] \<or> pads = ''='' \<or> pads = ''==''"
    using encode_000_dst_shape [of bs True v] by auto
  have "\<not> i < length syms"
  proof
    assume "i < length syms"
    then have "src ! i \<in> set (base64_tables v)"
      using s(1,2) by (auto simp: nth_append)
    with assms(3) pad_not_in_tables show False by metis
  qed
  then have i: "length syms \<le> i" by simp
  from s(3) have l: "length pads \<le> 2" by auto
  have "src ! j = CHR ''=''" if "i \<le> j" "j < length src" for j
  proof -
    from that i s(1) have "src ! j = pads ! (j - length syms)" "j - length syms < length pads"
      by (auto simp: nth_append)
    with s(3) show ?thesis
      by (auto simp: less_Suc_eq numeral_2_eq_2)
  qed
  with i l s(1) show ?thesis by auto
qed


text \<open>
  With padding disabled the grouped decoder rejects an input that leaves one symbol after
  the groups of four. Both decoders, when they accept an unpadded input of \<open>n\<close> symbols,
  return \<open>6 * n div 8\<close> bytes: one byte for two leftover symbols, two for three.
\<close>

lemma unpadded_length_arith:
  fixes n :: nat
  defines "L \<equiv> (n * 8 + 5) div 6"
  shows "L mod 4 \<noteq> 1" and "n = L * 6 div 8"
proof -
  define q r where "q = n div 3" and "r = n mod 3"
  then have n: "n = 3 * q + r" and "r < 3" by simp_all
  from \<open>r < 3\<close> consider "r = 0" | "r = 1" | "r = 2" by linarith
  then have "L = 4 * q + (if r = 0 then 0 else r + 1)"
  proof cases
    case 1
    have "(24 * q + 5) div 6 = 4 * q" by linarith
    with 1 show ?thesis by (simp add: L_def n ac_simps)
  next
    case 2
    have "(24 * q + 13) div 6 = 4 * q + 2" by linarith
    with 2 show ?thesis by (simp add: L_def n ac_simps)
  next
    case 3
    have "(24 * q + 21) div 6 = 4 * q + 3" by linarith
    with 3 show ?thesis by (simp add: L_def n ac_simps)
  qed
  with \<open>r < 3\<close> n show "L mod 4 \<noteq> 1" and "n = L * 6 div 8"
    by (auto split: if_splits)
qed

lemma decode_000_unpadded_leftover:
  assumes "base64_decode_000 src False v = Some bs"
  shows "length src mod 4 \<noteq> 1 \<and> length bs = length src * 6 div 8"
proof -
  from assms have "src = encode_000_dst bs False v"
    by (simp add: base64_decode_000_iff)
  then have "length src = (length bs * 8 + 5) div 6"
    by (simp add: encode_000_dst_length)
  with unpadded_length_arith [of "length bs"] show ?thesis by simp
qed

lemma decode_001_loop_unpadded_count:
  assumes "decode_001_loop rt False src (ac, bits, bp) = Some (ac', bits', bp')"
    and "0 \<le> bits" "bits < 8"
  shows "8 * int (length bp') + bits' = 8 * int (length bp) + bits + 6 * int (length src) \<and>
         0 \<le> bits' \<and> bits' < 8"
  using assms
proof (induction src arbitrary: ac bits bp)
  case Nil
  then show ?case by simp
next
  case (Cons c src)
  show ?case
  proof (cases "bits + 6 \<ge> 8")
    case True
    with Cons.prems have "decode_001_loop rt False src
        (push_bit 6 ac OR scast (rev_lookup rt c), bits + 6 - 8,
         bp @ [ucast (drop_bit (nat (bits + 6 - 8)) (push_bit 6 ac OR scast (rev_lookup rt c)))])
        = Some (ac', bits', bp')"
      by (simp add: Let_def split: if_splits)
    from Cons.IH [OF this] True Cons.prems(2,3) show ?thesis by simp
  next
    case False
    with Cons.prems have "decode_001_loop rt False src
        (push_bit 6 ac OR scast (rev_lookup rt c), bits + 6, bp) = Some (ac', bits', bp')"
      by (simp add: Let_def split: if_splits)
    from Cons.IH [OF this] False Cons.prems(2,3) show ?thesis by simp
  qed
qed

lemma decode_001_unpadded_length:
  assumes "base64_decode_001 src False v = Some bs"
  shows "length bs = length src * 6 div 8"
proof -
  from assms obtain ac bits where
    "decode_001_loop (base64_rev_maps v) False src (0, 0, []) = Some (ac, bits, bs)"
    by (auto simp: base64_decode_001_def decode_001_final_def split: option.splits if_splits)
  from decode_001_loop_unpadded_count [OF this]
  have "8 * int (length bs) + bits = 6 * int (length src)" "0 \<le> bits" "bits < 8"
    by simp_all
  then show ?thesis by linarith
qed

text \<open>
  Both decoders accept an unpadded input of two alphabet symbols exactly when the low four
  bits of the second symbol's value are zero.
\<close>

lemma low4_zero_iff:
  fixes w :: "'a::len word"
  shows "w AND 0xf = 0 \<longleftrightarrow> (\<forall>n<4. \<not> bit w n)"
proof -
  have "(0xf :: 'a word) = mask 4" by (simp add: mask_eq_exp_minus_1)
  then have "w AND 0xf = take_bit 4 w" by (simp add: take_bit_eq_mask)
  also have "\<dots> = 0 \<longleftrightarrow> (\<forall>n<4. \<not> bit w n)"
    by (auto simp: bit_eq_iff bit_simps dest: bit_imp_le_length)
  finally show ?thesis .
qed

lemma less4_cases:
  assumes "n < 4" "P 0" "P 1" "P 2" "P 3"
  shows "P (n :: nat)"
proof -
  from assms(1) consider "n = 0" | "n = 1" | "n = 2" | "n = 3" by linarith
  then show ?thesis using assms(2-) by cases auto
qed

lemma tail2_mask_iff:
  fixes x0 x1 :: u32
  shows "(push_bit 12 (sextet 0 x0) OR push_bit 6 (sextet 0 x1)) AND 0x800003ff = 0 \<longleftrightarrow>
         (ucast (sextet 0 x1) :: s8) AND 0xf = 0"
proof
  assume a: "(push_bit 12 (sextet 0 x0) OR push_bit 6 (sextet 0 x1)) AND 0x800003ff = 0"
  have "\<not> bit x1 n" if "n < 4" for n
    using tail2_filler [OF a, of n] that by auto
  then show "(ucast (sextet 0 x1) :: s8) AND 0xf = 0"
    unfolding low4_zero_iff by (auto simp: bit_simps sextet_def)
next
  assume "(ucast (sextet 0 x1) :: s8) AND 0xf = 0"
  then have z: "\<not> bit x1 n" if "n < 4" for n
    unfolding low4_zero_iff using that by (auto simp: bit_simps sextet_def)
  show "(push_bit 12 (sextet 0 x0) OR push_bit 6 (sextet 0 x1)) AND 0x800003ff = 0"
  proof (rule bit_word_eqI)
    fix n :: nat
    assume "n < LENGTH(32)"
    consider "n < 6" | "6 \<le> n" "n < 10" | "10 \<le> n" "n < 31" | "n = 31" | "32 \<le> n"
      by linarith
    then show "bit ((push_bit 12 (sextet 0 x0) OR push_bit 6 (sextet 0 x1)) AND 0x800003ff) n
               = bit (0 :: u32) n"
    proof cases
      case 2
      then have "\<not> bit x1 (n - 6)" by (intro z) simp
      with 2 show ?thesis by (simp add: bit_simps sextet_def bit_800003ff_int)
    qed (simp_all add: bit_simps sextet_def bit_800003ff_int)
  qed
qed

lemma acc2_mask_iff:
  fixes x0 x1 :: u32
  shows "(push_bit 6 (sextet 0 x0) OR sextet 0 x1) AND 15 = 0 \<longleftrightarrow>
         (ucast (sextet 0 x1) :: s8) AND 0xf = 0"
  unfolding low4_zero_iff by (auto simp: bit_simps sextet_def)


lemma two_symbol_tail_iff:
  assumes "a \<in> set (base64_tables v)" "b \<in> set (base64_tables v)"
  shows "base64_decode_000 [a, b] False v \<noteq> None \<longleftrightarrow>
           rev_lookup (base64_rev_maps v) b AND 0xf = 0"
    and "base64_decode_001 [a, b] False v \<noteq> None \<longleftrightarrow>
           rev_lookup (base64_rev_maps v) b AND 0xf = 0"
proof -
  from assms obtain x0 x1 :: u32 where c: "a = symbol v (sextet 0 x0)"
    "b = symbol v (sextet 0 x1)"
    by (metis in_table_symbol)
  show "base64_decode_000 [a, b] False v \<noteq> None \<longleftrightarrow>
           rev_lookup (base64_rev_maps v) b AND 0xf = 0"
    unfolding c
    using tail2_mask_iff [of x0 x1]
    by (simp add: base64_decode_000_def decode_000_from_short decode_000_tail_def rev_symbol
        scast_sextet Let_def)
  show "base64_decode_001 [a, b] False v \<noteq> None \<longleftrightarrow>
           rev_lookup (base64_rev_maps v) b AND 0xf = 0"
    unfolding c
    using acc2_mask_iff [of x0 x1]
    by (simp add: base64_decode_001_def decode_001_final_def rev_symbol ucast_sextet_valid
        scast_sextet Let_def)
qed

section \<open>Where the accumulator decoder accepts what the grouped decoder rejects\<close>

text \<open>
  Claim C2. An input whose last partial group carries non-zero filler bits must be
  rejected in padded and in unpadded mode. The symbol \<open>x\<close> has the value 49, whose low
  four bits are \<open>0001\<close>; in \<open>/x==\<close> they are filler. The grouped decoder (part 000)
  rejects the input. The accumulator decoder (part 001) shifts the accumulator and
  resets \<open>bits\<close> for each \<open>=\<close>, so that its final mask is empty, and returns one byte.
\<close>

theorem decode_001_padded_filler_accepted:
  "rev_lookup (base64_rev_maps BASE64_STD) CHR ''x'' AND 0xf = 1 \<and>
   base64_decode_001 ''/x=='' True BASE64_STD = Some [0xff] \<and>
   base64_decode_000 ''/x=='' True BASE64_STD = None"
  by code_simp

text \<open>
  Claim C3. The two decoders are claimed to return the same result on every input. On
  \<open>=AAA\<close> with padding enabled the grouped decoder returns the invalid-input result and
  the accumulator decoder returns three zero bytes.
\<close>

theorem decoders_differ:
  "base64_decode_000 ''=AAA'' True BASE64_STD = None \<and>
   base64_decode_001 ''=AAA'' True BASE64_STD = Some [0, 0, 0]"
  by code_simp

text \<open>
  Claim C4. With padding enabled, an input whose length is not a multiple of 4, or with
  a \<open>=\<close> that is not part of a suffix of the last group, must be rejected, and so must
  \<open>Zm9=\<close>. The accumulator decoder accepts \<open>Zm9=\<close>, \<open>AA\<close> (length 2) and \<open>A=AA\<close>
  (a \<open>=\<close> before other symbols); the grouped decoder rejects all three.
\<close>

theorem decode_001_padding_unchecked:
  "base64_decode_001 ''Zm9='' True BASE64_STD = Some [0x66, 0x6f] \<and>
   base64_decode_001 ''AA'' True BASE64_STD = Some [0] \<and>
   base64_decode_001 ''A=AA'' True BASE64_STD = Some [0, 0] \<and>
   base64_decode_000 ''Zm9='' True BASE64_STD = None \<and>
   base64_decode_000 ''AA'' True BASE64_STD = None \<and>
   base64_decode_000 ''A=AA'' True BASE64_STD = None"
  by code_simp

text \<open>
  Claim C5. With padding disabled, an input that leaves exactly one symbol after the
  groups of four must be rejected whatever that symbol is. The accumulator decoder
  accepts such an input when the leftover symbol is \<open>A\<close> (value 0): it returns no byte
  for \<open>A\<close> and the three bytes of the first group for \<open>Zm9vA\<close>. The grouped decoder
  rejects both.
\<close>

theorem decode_001_single_leftover_accepted:
  "base64_decode_001 ''A'' False BASE64_STD = Some [] \<and>
   base64_decode_001 ''Zm9vA'' False BASE64_STD = Some [0x66, 0x6f, 0x6f] \<and>
   base64_decode_000 ''A'' False BASE64_STD = None \<and>
   base64_decode_000 ''Zm9vA'' False BASE64_STD = None"
  by code_simp

end
